theory Spec2Isabelle
  imports Main "HOL-Library.Word"
begin

unbundle bit_operations_syntax

section \<open>The fixed-size byte container of \<open>bytes.hpp\<close>\<close>

text \<open>
  \<open>template <size_t N> class bytes\<close> has the single member \<open>byte_t data_[N]\<close>, with
  \<open>byte_t = unsigned char\<close> and \<open>index_t = size_t\<close>. A container is modelled as the list of
  its cells, \<open>data_[0]\<close> first; the template parameter \<open>N\<close> is the length of that list and
  \<open>static_assert(N > 0)\<close> is the hypothesis \<open>0 < length x\<close> wherever the code needs it.
  Indices and shift counts are natural numbers: \<open>N * 8\<close> is assumed to fit \<open>size_t\<close>.

  Arithmetic on \<open>unsigned char\<close> operands is done by C++ in \<open>int\<close> (integral promotion) and
  the result is converted back on assignment; \<open>promote\<close> and \<open>narrow\<close> are these two steps.
  The promoted operand is never negative, so \<open>>>\<close> on it is the logical shift.
\<close>

type_synonym byte_t = "8 word"
type_synonym int_t = "32 word"
type_synonym index_t = nat
type_synonym bytes = "byte_t list"

definition promote :: "byte_t \<Rightarrow> int_t" where
  "promote b = ucast b"

definition narrow :: "int_t \<Rightarrow> byte_t" where
  "narrow v = ucast v"

text \<open>\<open>bytes{}\<close>: every cell is value-initialised to zero.\<close>

definition zero_bytes :: "nat \<Rightarrow> bytes" where
  "zero_bytes N = replicate N 0"

subsection \<open>Bitwise operators\<close>

text \<open>The loop \<open>for (i = 0; i < N; ++i) result.data_[i] = data_[i] op other.data_[i]\<close>.\<close>

function binop_loop :: "(int_t \<Rightarrow> int_t \<Rightarrow> int_t) \<Rightarrow> bytes \<Rightarrow> bytes \<Rightarrow> index_t \<Rightarrow> bytes \<Rightarrow> bytes" where
  "binop_loop f data other i result =
     (if i < length data
      then binop_loop f data other (i + 1)
             (result[i := narrow (f (promote (data ! i)) (promote (other ! i)))])
      else result)"
  by pat_completeness auto
termination
  by (relation "measure (\<lambda>(f, data, other, i, result). length data - i)") auto

declare binop_loop.simps [simp del]

definition bytes_or :: "bytes \<Rightarrow> bytes \<Rightarrow> bytes" where
  "bytes_or x other = binop_loop (OR) x other 0 (zero_bytes (length x))"

definition bytes_and :: "bytes \<Rightarrow> bytes \<Rightarrow> bytes" where
  "bytes_and x other = binop_loop (AND) x other 0 (zero_bytes (length x))"

definition bytes_xor :: "bytes \<Rightarrow> bytes \<Rightarrow> bytes" where
  "bytes_xor x other = binop_loop (XOR) x other 0 (zero_bytes (length x))"

subsection \<open>Shift operators\<close>

text \<open>Byte-aligned left shift: \<open>for (i = byte_shift; i < N; ++i) result.data_[i] = data_[i - byte_shift]\<close>.\<close>

function shl_aligned_loop :: "bytes \<Rightarrow> index_t \<Rightarrow> index_t \<Rightarrow> bytes \<Rightarrow> bytes" where
  "shl_aligned_loop data byte_shift i result =
     (if i < length data
      then shl_aligned_loop data byte_shift (i + 1) (result[i := data ! (i - byte_shift)])
      else result)"
  by pat_completeness auto
termination
  by (relation "measure (\<lambda>(data, byte_shift, i, result). length data - i)") auto

declare shl_aligned_loop.simps [simp del]

text \<open>Left shift with carry: the loop over \<open>i < N - byte_shift\<close>, upwards from 0.\<close>

function shl_carry_loop :: "bytes \<Rightarrow> index_t \<Rightarrow> index_t \<Rightarrow> index_t \<Rightarrow> byte_t \<Rightarrow> bytes \<Rightarrow> bytes" where
  "shl_carry_loop data byte_shift bit_shift i carry result =
     (if i < length data - byte_shift
      then (let src_idx = i;
                dst_idx = i + byte_shift;
                result' = result[dst_idx :=
                            narrow (push_bit bit_shift (promote (data ! src_idx)) OR promote carry)];
                carry' = narrow (drop_bit (8 - bit_shift) (promote (data ! src_idx)))
            in shl_carry_loop data byte_shift bit_shift (i + 1) carry' result')
      else result)"
  by pat_completeness auto
termination
  by (relation "measure (\<lambda>(data, byte_shift, bit_shift, i, carry, result). length data - byte_shift - i)") auto

declare shl_carry_loop.simps [simp del]

definition shift_left :: "bytes \<Rightarrow> index_t \<Rightarrow> bytes" where
  "shift_left x shift_bits =
     (if shift_bits = 0 then x
      else if shift_bits \<ge> length x * 8 then zero_bytes (length x)
      else (let result = zero_bytes (length x);
                byte_shift = shift_bits div 8;
                bit_shift = shift_bits mod 8
            in if bit_shift = 0
               then shl_aligned_loop x byte_shift byte_shift result
               else shl_carry_loop x byte_shift bit_shift 0 0 result))"

text \<open>Byte-aligned right shift: \<open>for (i = 0; i < N - byte_shift; ++i) result.data_[i] = data_[i + byte_shift]\<close>.\<close>

function shr_aligned_loop :: "bytes \<Rightarrow> index_t \<Rightarrow> index_t \<Rightarrow> bytes \<Rightarrow> bytes" where
  "shr_aligned_loop data byte_shift i result =
     (if i < length data - byte_shift
      then shr_aligned_loop data byte_shift (i + 1) (result[i := data ! (i + byte_shift)])
      else result)"
  by pat_completeness auto
termination
  by (relation "measure (\<lambda>(data, byte_shift, i, result). length data - byte_shift - i)") auto

declare shr_aligned_loop.simps [simp del]

text \<open>
  Right shift with carry: \<open>for (i = N - byte_shift; i-- > 0;)\<close> tests \<open>i > 0\<close>, decrements,
  and runs the body with the decremented \<open>i\<close>; the first argument below is the value of
  \<open>i\<close> before the test. The carry is a \<open>byte_t\<close>, so the shifted \<open>int\<close> is truncated to a byte.
\<close>

fun shr_carry_loop :: "bytes \<Rightarrow> index_t \<Rightarrow> index_t \<Rightarrow> index_t \<Rightarrow> byte_t \<Rightarrow> bytes \<Rightarrow> bytes" where
  "shr_carry_loop data byte_shift bit_shift 0 carry result = result"
| "shr_carry_loop data byte_shift bit_shift (Suc i) carry result =
     (let src_idx = i + byte_shift;
          dst_idx = i;
          result' = result[dst_idx :=
                      narrow (drop_bit bit_shift (promote (data ! src_idx)) OR promote carry)];
          carry' = narrow (push_bit (8 - bit_shift) (promote (data ! src_idx)))
      in shr_carry_loop data byte_shift bit_shift i carry' result')"

definition shift_right :: "bytes \<Rightarrow> index_t \<Rightarrow> bytes" where
  "shift_right x shift_bits =
     (if shift_bits = 0 then x
      else if shift_bits \<ge> length x * 8 then zero_bytes (length x)
      else (let result = zero_bytes (length x);
                byte_shift = shift_bits div 8;
                bit_shift = shift_bits mod 8
            in if bit_shift = 0
               then shr_aligned_loop x byte_shift 0 result
               else shr_carry_loop x byte_shift bit_shift (length x - byte_shift) 0 result))"

subsection \<open>Rotation\<close>

definition rotate_left :: "bytes \<Rightarrow> index_t \<Rightarrow> bytes" where
  "rotate_left x n =
     (let n' = n mod (length x * 8)
      in bytes_or (shift_left x n') (shift_right x (length x * 8 - n')))"

definition rotate_right :: "bytes \<Rightarrow> index_t \<Rightarrow> bytes" where
  "rotate_right x n =
     (let n' = n mod (length x * 8)
      in bytes_or (shift_right x n') (shift_left x (length x * 8 - n')))"

text \<open>
  The container read as one sequence of \<open>N * 8\<close> bits, little-endian: position \<open>j\<close> is bit
  \<open>j mod 8\<close> of cell \<open>j div 8\<close>, and there is no bit at a position from \<open>N * 8\<close> on.
\<close>

definition bit_at :: "bytes \<Rightarrow> nat \<Rightarrow> bool" where
  "bit_at x j = (j < length x * 8 \<and> bit (x ! (j div 8)) (j mod 8))"

subsection \<open>Single-bit operations\<close>

text \<open>
  \<open>set_bit\<close>, \<open>clear_bit\<close> and \<open>toggle_bit\<close> are \<open>void\<close> members that update \<open>data_\<close>;
  the model returns the container after the call. The literal \<open>1\<close> is an \<open>int\<close>.
\<close>

definition set_bit_bytes :: "bytes \<Rightarrow> index_t \<Rightarrow> bytes" where
  "set_bit_bytes x bit_pos =
     (if bit_pos < length x * 8
      then x[bit_pos div 8 :=
             narrow (promote (x ! (bit_pos div 8)) OR push_bit (bit_pos mod 8) 1)]
      else x)"

definition clear_bit :: "bytes \<Rightarrow> index_t \<Rightarrow> bytes" where
  "clear_bit x bit_pos =
     (if bit_pos < length x * 8
      then x[bit_pos div 8 :=
             narrow (promote (x ! (bit_pos div 8)) AND NOT (push_bit (bit_pos mod 8) 1))]
      else x)"

definition toggle_bit :: "bytes \<Rightarrow> index_t \<Rightarrow> bytes" where
  "toggle_bit x bit_pos =
     (if bit_pos < length x * 8
      then x[bit_pos div 8 :=
             narrow (promote (x ! (bit_pos div 8)) XOR push_bit (bit_pos mod 8) 1)]
      else x)"

definition test_bit :: "bytes \<Rightarrow> index_t \<Rightarrow> bool" where
  "test_bit x bit_pos =
     (if bit_pos \<ge> length x * 8 then False
      else (promote (x ! (bit_pos div 8)) AND push_bit (bit_pos mod 8) 1) \<noteq> 0)"

text \<open>\<open>std::popcount\<close> of one \<open>unsigned char\<close>, and the summing loop of \<open>popcount()\<close>.\<close>

definition std_popcount :: "byte_t \<Rightarrow> nat" where
  "std_popcount b = length (filter (bit b) [0..<8])"

function popcount_loop :: "bytes \<Rightarrow> index_t \<Rightarrow> nat \<Rightarrow> nat" where
  "popcount_loop data i count =
     (if i < length data then popcount_loop data (i + 1) (count + std_popcount (data ! i))
      else count)"
  by pat_completeness auto
termination
  by (relation "measure (\<lambda>(data, i, count). length data - i)") auto

declare popcount_loop.simps [simp del]

definition popcount :: "bytes \<Rightarrow> nat" where
  "popcount x = popcount_loop x 0 0"

subsection \<open>Element access\<close>

text \<open>
  \<open>data_[k]\<close> designates a cell of the array only for \<open>k < N\<close>; any other subscript is an
  access outside the object, which the model records as \<open>None\<close>. A reference to a cell is
  the index of that cell; \<open>operator[]\<close> and \<open>at\<close> each have a \<open>const\<close> overload, read here
  for its value, and a mutable overload, which returns the reference.
\<close>

definition cell :: "bytes \<Rightarrow> index_t \<Rightarrow> index_t option" where
  "cell x k = (if k < length x then Some k else None)"

definition subscript :: "bytes \<Rightarrow> index_t \<Rightarrow> index_t option" where
  "subscript x index = cell x (min index (length x - 1))"

definition subscript_const :: "bytes \<Rightarrow> index_t \<Rightarrow> byte_t option" where
  "subscript_const x index = map_option (nth x) (cell x (min index (length x - 1)))"

definition at_ref :: "bytes \<Rightarrow> index_t \<Rightarrow> index_t option" where
  "at_ref x index = cell x index"

definition at_const :: "bytes \<Rightarrow> index_t \<Rightarrow> byte_t option" where
  "at_const x index = map_option (nth x) (cell x index)"

subsection \<open>Conversion from and to integers\<close>

text \<open>
  An object of an integral type of \<open>sizeof\<close> \<open>k\<close> is a word of \<open>8 * k\<close> bits (signed and
  unsigned types share their object representation). \<open>object_bytes\<close> and \<open>object_value\<close>
  are its object representation on a little-endian target, the byte order the header
  documents for both conversions. \<open>memcpy dst src n\<close> overwrites the first \<open>n\<close> bytes of
  \<open>dst\<close>; both conversions call it with \<open>n\<close> at most the size of either side.
\<close>

definition sizeof_word :: "'a::len word \<Rightarrow> nat" where
  "sizeof_word v = LENGTH('a) div 8"

definition object_bytes :: "'a::len word \<Rightarrow> byte_t list" where
  "object_bytes v = map (\<lambda>i. ucast (drop_bit (8 * i) v)) [0..<sizeof_word v]"

fun object_value :: "byte_t list \<Rightarrow> 'a::len word" where
  "object_value [] = 0"
| "object_value (b # bs) = ucast b OR push_bit 8 (object_value bs)"

definition memcpy :: "byte_t list \<Rightarrow> byte_t list \<Rightarrow> nat \<Rightarrow> byte_t list" where
  "memcpy dst src n = take n src @ drop n dst"

definition from_int :: "nat \<Rightarrow> 'a::len word \<Rightarrow> bytes" where
  "from_int N v =
     (let int_size = sizeof_word v;
          copy_size = min N int_size
      in memcpy (zero_bytes N) (object_bytes v) copy_size)"

definition to_int :: "bytes \<Rightarrow> 'a::len word" where
  "to_int x =
     (let result = (0 :: 'a word);
          copy_size = min (length x) (sizeof_word result)
      in object_value (memcpy (object_bytes result) x copy_size))"

subsection \<open>Comparison\<close>

text \<open>
  \<open>operator<=>\<close> is defaulted: the language compares the only member, the array
  \<open>data_\<close>, element by element from index 0 and stops at the first pair that differs.
  Both operands have the same \<open>N\<close>.
\<close>

datatype strong_ordering = strong_less | strong_equal | strong_greater

fun spaceship :: "bytes \<Rightarrow> bytes \<Rightarrow> strong_ordering" where
  "spaceship (a # as) (b # bs) =
     (if a < b then strong_less else if b < a then strong_greater else spaceship as bs)"
| "spaceship _ _ = strong_equal"

subsection \<open>Textual output\<close>

text \<open>
  Every insertion of the two output functions is a formatted output function of
  \<open>std::ostream\<close>, so it reads the format state of the stream it is given. An output
  stream is the text written so far together with that state: whether the stream is
  good (an insertion on a stream that is not good writes nothing), the field width, the
  fill character, \<open>adjustfield\<close>, \<open>basefield\<close> and the flags \<open>uppercase\<close>, \<open>showbase\<close> and
  \<open>showpos\<close>. The sink accepts every character, and the locale is the classic one (no
  digit grouping).
\<close>

datatype adjustfield = adjust_none | adjust_left | adjust_right | adjust_internal

datatype basefield = base_dec | base_oct | base_hex

record ostream =
  os_text :: string
  os_good :: bool
  os_width :: nat
  os_fill :: char
  os_adjust :: adjustfield
  os_base :: basefield
  os_uppercase :: bool
  os_showbase :: bool
  os_showpos :: bool

text \<open>A stream as \<open>std::basic_ios::init\<close> leaves it, with nothing written yet.\<close>

definition init_stream :: ostream where
  "init_stream =
     \<lparr>os_text = [], os_good = True, os_width = 0, os_fill = CHR '' '',
      os_adjust = adjust_none, os_base = base_dec, os_uppercase = False,
      os_showbase = False, os_showpos = False\<rparr>"

text \<open>
  \<open>os << c\<close> for a character and \<open>os << s\<close> for a string literal: the characters are padded
  with the fill character to the field width, after them when \<open>adjustfield\<close> is \<open>left\<close> and
  before them otherwise, and the width is reset to 0.
\<close>

definition insert_text :: "ostream \<Rightarrow> string \<Rightarrow> ostream" where
  "insert_text os s =
     (if os_good os
      then (let p = replicate (os_width os - length s) (os_fill os);
                t = (if os_adjust os = adjust_left then s @ p else p @ s)
            in os\<lparr>os_text := os_text os @ t, os_width := 0\<rparr>)
      else os)"

text \<open>The manipulators \<open>std::hex\<close>, \<open>std::dec\<close>, \<open>std::setfill\<close> and \<open>std::setw\<close>.\<close>

definition std_hex :: "ostream \<Rightarrow> ostream" where
  "std_hex os = os\<lparr>os_base := base_hex\<rparr>"

definition std_dec :: "ostream \<Rightarrow> ostream" where
  "std_dec os = os\<lparr>os_base := base_dec\<rparr>"

definition setfill :: "char \<Rightarrow> ostream \<Rightarrow> ostream" where
  "setfill c os = os\<lparr>os_fill := c\<rparr>"

definition setw :: "nat \<Rightarrow> ostream \<Rightarrow> ostream" where
  "setw n os = os\<lparr>os_width := n\<rparr>"

text \<open>
  \<open>os << v\<close> for an \<open>int\<close> that is not negative (here always a promoted byte): the digits
  of \<open>v\<close> in the base of \<open>basefield\<close>, capital letters under \<open>uppercase\<close>; under \<open>showbase\<close> a
  non-zero value gets \<open>0x\<close> (\<open>0X\<close> under \<open>uppercase\<close>) in base 16 and a leading \<open>0\<close> in base 8;
  under \<open>showpos\<close> a decimal gets \<open>+\<close>. Padding to the field width goes after the text for
  \<open>left\<close>, between the sign or base prefix and the digits for \<open>internal\<close>, and before the
  text otherwise. The width is reset to 0.
\<close>

definition radix :: "basefield \<Rightarrow> nat" where
  "radix b = (case b of base_dec \<Rightarrow> 10 | base_oct \<Rightarrow> 8 | base_hex \<Rightarrow> 16)"

definition digit_char :: "bool \<Rightarrow> nat \<Rightarrow> char" where
  "digit_char upper d =
     (if upper then ''0123456789ABCDEF'' else ''0123456789abcdef'') ! d"

function digits_of :: "basefield \<Rightarrow> bool \<Rightarrow> nat \<Rightarrow> string" where
  "digits_of b upper n =
     (if n < radix b then [digit_char upper n]
      else digits_of b upper (n div radix b) @ [digit_char upper (n mod radix b)])"
  by pat_completeness auto
termination
  by (relation "measure (\<lambda>(b, upper, n). n)") (auto simp add: radix_def split: basefield.splits)

declare digits_of.simps [simp del]

definition int_prefix :: "ostream \<Rightarrow> nat \<Rightarrow> string" where
  "int_prefix os n =
     (case os_base os of
        base_hex \<Rightarrow> (if os_showbase os \<and> n \<noteq> 0
                     then (if os_uppercase os then ''0X'' else ''0x'') else [])
      | base_oct \<Rightarrow> []
      | base_dec \<Rightarrow> (if os_showpos os then ''+'' else []))"

definition int_body :: "ostream \<Rightarrow> nat \<Rightarrow> string" where
  "int_body os n =
     (if os_base os = base_oct \<and> os_showbase os \<and> n \<noteq> 0 then ''0'' else []) @
     digits_of (os_base os) (os_uppercase os) n"

definition insert_int :: "ostream \<Rightarrow> nat \<Rightarrow> ostream" where
  "insert_int os n =
     (if os_good os
      then (let pre = int_prefix os n;
                body = int_body os n;
                p = replicate (os_width os - length (pre @ body)) (os_fill os);
                t = (case os_adjust os of
                       adjust_left \<Rightarrow> pre @ body @ p
                     | adjust_internal \<Rightarrow> pre @ p @ body
                     | _ \<Rightarrow> p @ pre @ body)
            in os\<lparr>os_text := os_text os @ t, os_width := 0\<rparr>)
      else os)"

text \<open>The inner loop of the binary output is \<open>for (int j = 7; j >= 0; --j)\<close>.\<close>

function bits_loop :: "byte_t \<Rightarrow> int \<Rightarrow> ostream \<Rightarrow> ostream" where
  "bits_loop d j os =
     (if j \<ge> 0
      then bits_loop d (j - 1)
             (insert_text os
                [if (drop_bit (nat j) (promote d) AND 1) \<noteq> 0 then CHR ''1'' else CHR ''0''])
      else os)"
  by pat_completeness auto
termination
  by (relation "measure (\<lambda>(d, j, os). nat (j + 1))") auto

declare bits_loop.simps [simp del]

function out_loop :: "bytes \<Rightarrow> index_t \<Rightarrow> ostream \<Rightarrow> ostream" where
  "out_loop b i os =
     (if i < length b
      then (let os1 = bits_loop (b ! i) 7 os;
                os2 = (if i \<noteq> length b - 1 then insert_text os1 '' '' else os1)
            in out_loop b (i + 1) os2)
      else os)"
  by pat_completeness auto
termination
  by (relation "measure (\<lambda>(b, i, os). length b - i)") auto

declare out_loop.simps [simp del]

definition stream_out :: "ostream \<Rightarrow> bytes \<Rightarrow> ostream" where
  "stream_out os b = out_loop b 0 os"

text \<open>
  \<open>print_hex\<close>: \<open>os << "0x"\<close>, then the loop \<open>for (i = N; i-- > 0;)\<close> (first argument as in
  the right shift) with
  \<open>os << std::hex << std::setfill('0') << std::setw(2) << static_cast<int>(data_[i])\<close>,
  then \<open>os << std::dec\<close>.
\<close>

fun print_hex_loop :: "bytes \<Rightarrow> index_t \<Rightarrow> ostream \<Rightarrow> ostream" where
  "print_hex_loop data 0 os = os"
| "print_hex_loop data (Suc i) os =
     print_hex_loop data i
       (insert_int (setw 2 (setfill CHR ''0'' (std_hex os))) (unat (promote (data ! i))))"

definition print_hex :: "ostream \<Rightarrow> bytes \<Rightarrow> ostream" where
  "print_hex os x = std_dec (print_hex_loop x (length x) (insert_text os ''0x''))"

subsection \<open>The renderings in closed form\<close>

text \<open>One byte as eight binary digits, bit 7 first, and as two lowercase hex digits.\<close>

definition binary_digits :: "byte_t \<Rightarrow> string" where
  "binary_digits d = map (\<lambda>j. if bit d j then CHR ''1'' else CHR ''0'') [7, 6, 5, 4, 3, 2, 1, 0]"

definition hex_digit :: "nat \<Rightarrow> char" where
  "hex_digit d = ''0123456789abcdef'' ! d"

definition two_hex_digits :: "byte_t \<Rightarrow> string" where
  "two_hex_digits d = [hex_digit (unat d div 16), hex_digit (unat d mod 16)]"

fun space_separated :: "string list \<Rightarrow> string" where
  "space_separated [] = []"
| "space_separated [s] = s"
| "space_separated (s # t # ss) = s @ '' '' @ space_separated (t # ss)"

text \<open>
  The binary rendering as the specification words it: the bytes listed from the highest
  index down to index 0.
\<close>

definition binary_high_to_low :: "bytes \<Rightarrow> string" where
  "binary_high_to_low x = space_separated (map binary_digits (rev x))"

section \<open>Properties\<close>

subsection \<open>Promotion and narrowing\<close>

lemma narrow_shl_or: "narrow (push_bit k (promote d) OR promote c) = push_bit k d OR c"
  unfolding narrow_def promote_def
  by (rule bit_word_eqI) (auto simp add: bit_simps)

lemma narrow_shr_or: "narrow (drop_bit k (promote d) OR promote c) = drop_bit k d OR c"
  unfolding narrow_def promote_def
  by (rule bit_word_eqI) (auto simp add: bit_simps dest: bit_imp_le_length)

lemma narrow_shl: "narrow (push_bit k (promote d)) = push_bit k d"
  unfolding narrow_def promote_def
  by (rule bit_word_eqI) (auto simp add: bit_simps)

lemma narrow_shr: "narrow (drop_bit k (promote d)) = drop_bit k d"
  unfolding narrow_def promote_def
  by (rule bit_word_eqI) (auto simp add: bit_simps dest: bit_imp_le_length)

lemma narrow_or: "narrow (promote a OR promote b) = a OR b"
  unfolding narrow_def promote_def
  by (rule bit_word_eqI) (auto simp add: bit_simps)

subsection \<open>What each loop leaves in every cell\<close>

lemma length_binop_loop:
  "length (binop_loop f data other i result) = length result"
  by (induction f data other i result rule: binop_loop.induct)
     (subst binop_loop.simps, simp)

lemma nth_binop_loop:
  "length result = length data \<Longrightarrow>
   binop_loop f data other i result ! j =
     (if i \<le> j \<and> j < length data
      then narrow (f (promote (data ! j)) (promote (other ! j)))
      else result ! j)"
proof (induction f data other i result rule: binop_loop.induct)
  case (1 f data other i result)
  show ?case
  proof (cases "i < length data")
    case True
    with 1 show ?thesis
      by (subst binop_loop.simps) (auto simp add: nth_list_update)
  next
    case False
    then show ?thesis
      by (subst binop_loop.simps) auto
  qed
qed

lemma length_shl_aligned_loop:
  "length (shl_aligned_loop data byte_shift i result) = length result"
  by (induction data byte_shift i result rule: shl_aligned_loop.induct)
     (subst shl_aligned_loop.simps, simp)

lemma nth_shl_aligned_loop:
  "length result = length data \<Longrightarrow>
   shl_aligned_loop data byte_shift i result ! j =
     (if i \<le> j \<and> j < length data then data ! (j - byte_shift) else result ! j)"
proof (induction data byte_shift i result rule: shl_aligned_loop.induct)
  case (1 data byte_shift i result)
  show ?case
  proof (cases "i < length data")
    case True
    with 1 show ?thesis
      by (subst shl_aligned_loop.simps) (auto simp add: nth_list_update)
  next
    case False
    then show ?thesis
      by (subst shl_aligned_loop.simps) auto
  qed
qed

lemma length_shr_aligned_loop:
  "length (shr_aligned_loop data byte_shift i result) = length result"
  by (induction data byte_shift i result rule: shr_aligned_loop.induct)
     (subst shr_aligned_loop.simps, simp)

lemma nth_shr_aligned_loop:
  "length result = length data \<Longrightarrow>
   shr_aligned_loop data byte_shift i result ! j =
     (if i \<le> j \<and> j < length data - byte_shift then data ! (j + byte_shift) else result ! j)"
proof (induction data byte_shift i result rule: shr_aligned_loop.induct)
  case (1 data byte_shift i result)
  show ?case
  proof (cases "i < length data - byte_shift")
    case True
    with 1 show ?thesis
      by (subst shr_aligned_loop.simps) (auto simp add: nth_list_update)
  next
    case False
    then show ?thesis
      by (subst shr_aligned_loop.simps) auto
  qed
qed

lemma length_shl_carry_loop:
  "length (shl_carry_loop data byte_shift bit_shift i carry result) = length result"
  by (induction data byte_shift bit_shift i carry result rule: shl_carry_loop.induct)
     (subst shl_carry_loop.simps, simp add: Let_def)

lemma nth_shl_carry_loop:
  "length result = length data \<Longrightarrow>
   shl_carry_loop data byte_shift bit_shift i carry result ! j =
     (if i + byte_shift \<le> j \<and> j < length data
      then push_bit bit_shift (data ! (j - byte_shift)) OR
           (if j = i + byte_shift then carry
            else drop_bit (8 - bit_shift) (data ! (j - byte_shift - 1)))
      else result ! j)"
proof (induction data byte_shift bit_shift i carry result rule: shl_carry_loop.induct)
  case (1 data byte_shift bit_shift i carry result)
  show ?case
  proof (cases "i < length data - byte_shift")
    case True
    with 1 show ?thesis
      by (subst shl_carry_loop.simps)
         (auto simp add: Let_def nth_list_update narrow_shl_or narrow_shr)
  next
    case False
    then show ?thesis
      by (subst shl_carry_loop.simps) auto
  qed
qed

lemma length_shr_carry_loop:
  "length (shr_carry_loop data byte_shift bit_shift i carry result) = length result"
  by (induction i arbitrary: carry result) (simp_all add: Let_def)

lemma nth_shr_carry_loop:
  "i \<le> length result \<Longrightarrow>
   shr_carry_loop data byte_shift bit_shift i carry result ! j =
     (if j < i
      then drop_bit bit_shift (data ! (j + byte_shift)) OR
           (if Suc j = i then carry
            else push_bit (8 - bit_shift) (data ! (j + byte_shift + 1)))
      else result ! j)"
proof (induction i arbitrary: carry result)
  case 0
  then show ?case by simp
next
  case (Suc i)
  have "j < i \<or> j = i \<or> Suc i \<le> j" by arith
  with Suc show ?case
    by (auto simp add: Let_def nth_list_update narrow_shr_or narrow_shl)
qed


lemma length_zero_bytes: "length (zero_bytes n) = n"
  by (simp add: zero_bytes_def)

lemma nth_zero_bytes: "k < n \<Longrightarrow> zero_bytes n ! k = 0"
  by (simp add: zero_bytes_def)

lemma length_shift_left: "length (shift_left x b) = length x"
  by (simp add: shift_left_def Let_def length_zero_bytes
        length_shl_aligned_loop length_shl_carry_loop)

lemma length_shift_right: "length (shift_right x b) = length x"
  by (simp add: shift_right_def Let_def length_zero_bytes
        length_shr_aligned_loop length_shr_carry_loop)

lemma nth_shift_left_aligned:
  assumes "0 < b" "b < length x * 8" "b mod 8 = 0" "k < length x"
  shows "shift_left x b ! k = (if b div 8 \<le> k then x ! (k - b div 8) else 0)"
  using assms
  by (simp add: shift_left_def Let_def nth_shl_aligned_loop length_zero_bytes nth_zero_bytes)

lemma nth_shift_left_carry:
  assumes "b < length x * 8" "b mod 8 \<noteq> 0" "k < length x"
  shows "shift_left x b ! k =
           (if b div 8 \<le> k
            then push_bit (b mod 8) (x ! (k - b div 8)) OR
                 (if k = b div 8 then 0 else drop_bit (8 - b mod 8) (x ! (k - b div 8 - 1)))
            else 0)"
proof -
  from assms have "b \<noteq> 0" by auto
  with assms show ?thesis
    by (simp add: shift_left_def Let_def nth_shl_carry_loop length_zero_bytes nth_zero_bytes)
qed

lemma nth_shift_right_aligned:
  assumes "0 < b" "b < length x * 8" "b mod 8 = 0" "k < length x"
  shows "shift_right x b ! k = (if k < length x - b div 8 then x ! (k + b div 8) else 0)"
  using assms
  by (simp add: shift_right_def Let_def nth_shr_aligned_loop length_zero_bytes nth_zero_bytes)

lemma nth_shift_right_carry:
  assumes "b < length x * 8" "b mod 8 \<noteq> 0" "k < length x"
  shows "shift_right x b ! k =
           (if k < length x - b div 8
            then drop_bit (b mod 8) (x ! (k + b div 8)) OR
                 (if Suc k = length x - b div 8 then 0
                  else push_bit (8 - b mod 8) (x ! (k + b div 8 + 1)))
            else 0)"
proof -
  from assms have "b \<noteq> 0" by auto
  with assms show ?thesis
    by (simp add: shift_right_def Let_def nth_shr_carry_loop length_zero_bytes nth_zero_bytes)
qed

subsection \<open>Bit positions across cells\<close>

lemma div_mod_8_unique:
  fixes n q r :: nat
  assumes "r < 8" "n = 8 * q + r"
  shows "n div 8 = q" "n mod 8 = r"
  using assms by simp_all

lemma position_split:
  fixes j :: nat
  obtains k m where "j = 8 * k + m" "m < 8"
proof
  show "j = 8 * (j div 8) + j mod 8" by simp
  show "j mod 8 < 8" by simp
qed

lemma bit_at_cell:
  assumes "m < 8"
  shows "bit_at x (8 * k + m) \<longleftrightarrow> k < length x \<and> bit (x ! k) m"
proof -
  have "(8 * k + m) div 8 = k" "(8 * k + m) mod 8 = m"
    by (rule div_mod_8_unique [OF assms refl])+
  moreover have "8 * k + m < length x * 8 \<longleftrightarrow> k < length x" using assms by linarith
  ultimately show ?thesis unfolding bit_at_def by (simp only:)
qed

lemma bit_at_zero_bytes: "\<not> bit_at (zero_bytes n) j"
  by (simp add: bit_at_def zero_bytes_def)

lemma bit_at_out_of_range: "length x * 8 \<le> j \<Longrightarrow> \<not> bit_at x j"
  by (simp add: bit_at_def)

lemma shift_left_cell:
  assumes bt: "bt < 8" and k: "k < length x"
  shows "shift_left x (8 * bs + bt) ! k =
           (if bs \<le> k
            then push_bit bt (x ! (k - bs)) OR
                 (if k = bs \<or> bt = 0 then 0 else drop_bit (8 - bt) (x ! (k - bs - 1)))
            else 0)"
proof -
  define b where "b = 8 * bs + bt"
  have d: "b div 8 = bs" and r: "b mod 8 = bt"
    by (rule div_mod_8_unique [OF bt b_def])+
  consider (zero) "bs = 0" "bt = 0" | (sat) "length x \<le> bs"
    | (aligned) "0 < bs" "bs < length x" "bt = 0"
    | (carry) "bs < length x" "bt \<noteq> 0"
    by linarith
  then have "shift_left x b ! k =
           (if bs \<le> k
            then push_bit bt (x ! (k - bs)) OR
                 (if k = bs \<or> bt = 0 then 0 else drop_bit (8 - bt) (x ! (k - bs - 1)))
            else 0)"
  proof cases
    case zero
    then have "b = 0" by (simp add: b_def)
    with zero show ?thesis by (simp add: shift_left_def)
  next
    case sat
    then have "length x * 8 \<le> b" "b \<noteq> 0" "\<not> bs \<le> k" using k by (simp_all add: b_def)
    with k show ?thesis by (simp add: shift_left_def nth_zero_bytes)
  next
    case aligned
    then have "0 < b" "b < length x * 8" "b mod 8 = 0" by (simp_all add: b_def)
    from nth_shift_left_aligned [OF this k] aligned show ?thesis
      unfolding d by simp
  next
    case carry
    then have "b < length x * 8" "b mod 8 \<noteq> 0" using bt by (simp_all add: r) (simp add: b_def)
    from nth_shift_left_carry [OF this k] carry show ?thesis
      unfolding d r by simp
  qed
  then show ?thesis unfolding b_def .
qed

lemma shift_right_cell:
  assumes bt: "bt < 8" and k: "k < length x"
  shows "shift_right x (8 * bs + bt) ! k =
           (if k + bs < length x
            then drop_bit bt (x ! (k + bs)) OR
                 (if k + bs + 1 = length x \<or> bt = 0 then 0
                  else push_bit (8 - bt) (x ! (k + bs + 1)))
            else 0)"
proof -
  define b where "b = 8 * bs + bt"
  have d: "b div 8 = bs" and r: "b mod 8 = bt"
    by (rule div_mod_8_unique [OF bt b_def])+
  consider (zero) "bs = 0" "bt = 0" | (sat) "length x \<le> bs"
    | (aligned) "0 < bs" "bs < length x" "bt = 0"
    | (carry) "bs < length x" "bt \<noteq> 0"
    by linarith
  then have "shift_right x b ! k =
           (if k + bs < length x
            then drop_bit bt (x ! (k + bs)) OR
                 (if k + bs + 1 = length x \<or> bt = 0 then 0
                  else push_bit (8 - bt) (x ! (k + bs + 1)))
            else 0)"
  proof cases
    case zero
    then have "b = 0" by (simp add: b_def)
    with zero k show ?thesis by (simp add: shift_right_def)
  next
    case sat
    then have "length x * 8 \<le> b" "b \<noteq> 0" "\<not> k + bs < length x" using k by (simp_all add: b_def)
    with k show ?thesis by (simp add: shift_right_def nth_zero_bytes)
  next
    case aligned
    then have "0 < b" "b < length x * 8" "b mod 8 = 0" by (simp_all add: b_def)
    from nth_shift_right_aligned [OF this k]
    have "shift_right x b ! k = (if k < length x - bs then x ! (k + bs) else 0)"
      unfolding d .
    moreover have "k < length x - bs \<longleftrightarrow> k + bs < length x" by linarith
    ultimately show ?thesis using aligned by simp
  next
    case carry
    then have "b < length x * 8" "b mod 8 \<noteq> 0" using bt by (simp_all add: r) (simp add: b_def)
    from nth_shift_right_carry [OF this k]
    have "shift_right x b ! k =
           (if k < length x - bs
            then drop_bit bt (x ! (k + bs)) OR
                 (if Suc k = length x - bs then 0
                  else push_bit (8 - bt) (x ! (k + bs + 1)))
            else 0)"
      unfolding d r .
    moreover have "k < length x - bs \<longleftrightarrow> k + bs < length x" by linarith
    moreover have "Suc k = length x - bs \<longleftrightarrow> k + bs + 1 = length x" using carry by linarith
    ultimately show ?thesis using carry by simp
  qed
  then show ?thesis unfolding b_def .
qed

subsection \<open>The shifts, bit by bit\<close>

lemma bit_byte_bound: "bit (d :: byte_t) n \<Longrightarrow> n < 8"
  by (auto dest: bit_imp_le_length)

lemma bit_shl_cell:
  fixes d e :: byte_t
  assumes "m < 8" "bt < 8"
  shows "bit (push_bit bt d OR (if c then 0 else drop_bit (8 - bt) e)) m \<longleftrightarrow>
           (bt \<le> m \<and> bit d (m - bt)) \<or> (\<not> c \<and> m < bt \<and> bit e (m + 8 - bt))"
proof -
  have eq: "8 - bt + m = m + 8 - bt" using assms by linarith
  have "bit e (m + 8 - bt) \<Longrightarrow> m < bt"
    using bit_byte_bound [of e "m + 8 - bt"] by linarith
  then show ?thesis
    using assms by (auto simp add: bit_or_iff bit_push_bit_iff bit_drop_bit_eq eq)
qed

lemma bit_shr_cell:
  fixes d e :: byte_t
  assumes "m < 8" "bt < 8"
  shows "bit (drop_bit bt d OR (if c then 0 else push_bit (8 - bt) e)) m \<longleftrightarrow>
           (m + bt < 8 \<and> bit d (m + bt)) \<or> (\<not> c \<and> 8 \<le> m + bt \<and> bit e (m + bt - 8))"
proof -
  have eq: "bt + m = m + bt" by simp
  have sub: "m - (8 - bt) = m + bt - 8" using assms by linarith
  have le: "8 - bt \<le> m \<longleftrightarrow> 8 \<le> m + bt" using assms by linarith
  have "bit d (m + bt) \<Longrightarrow> m + bt < 8" by (rule bit_byte_bound)
  then show ?thesis
    using assms by (auto simp add: bit_or_iff bit_push_bit_iff bit_drop_bit_eq eq sub le)
qed

lemma bit_at_shift_left:
  "bit_at (shift_left x b) j \<longleftrightarrow> b \<le> j \<and> j < length x * 8 \<and> bit_at x (j - b)"
proof -
  obtain k m where j: "j = 8 * k + m" and m: "m < 8" by (rule position_split)
  obtain bs bt where b: "b = 8 * bs + bt" and bt: "bt < 8" by (rule position_split)
  show ?thesis
  proof (cases "k < length x")
    case False
    then have "length x * 8 \<le> j" using j by linarith
    then have "\<not> bit_at (shift_left x b) j" "\<not> j < length x * 8"
      by (simp_all add: bit_at_out_of_range length_shift_left)
    then show ?thesis by blast
  next
    case k: True
    then have jl: "j < length x * 8" using j m by linarith
    have lhs: "bit_at (shift_left x b) j \<longleftrightarrow>
               bs \<le> k \<and> ((bt \<le> m \<and> bit (x ! (k - bs)) (m - bt)) \<or>
                 (\<not> (k = bs \<or> bt = 0) \<and> m < bt \<and> bit (x ! (k - bs - 1)) (m + 8 - bt)))"
      unfolding j b bit_at_cell [OF m] length_shift_left shift_left_cell [OF bt k]
      using k bit_shl_cell [OF m bt] by simp
    show ?thesis
    proof (cases "bt \<le> m")
      case le: True
      show ?thesis
      proof (cases "bs \<le> k")
        case True
        have "j - b = 8 * (k - bs) + (m - bt)" using j b le True by linarith
        moreover have "m - bt < 8" using m by linarith
        ultimately have "bit_at x (j - b) \<longleftrightarrow> k - bs < length x \<and> bit (x ! (k - bs)) (m - bt)"
          by (simp only: bit_at_cell)
        moreover have "k - bs < length x" using k by linarith
        moreover have "b \<le> j" using j b le True by linarith
        ultimately show ?thesis using lhs le True jl by simp
      next
        case False
        then have "\<not> b \<le> j" using j b m bt by linarith
        with lhs False show ?thesis by simp
      qed
    next
      case gt: False
      show ?thesis
      proof (cases "bs < k")
        case True
        have "j - b = 8 * (k - bs - 1) + (m + 8 - bt)" using j b gt True bt by linarith
        moreover have "m + 8 - bt < 8" using gt by linarith
        ultimately have "bit_at x (j - b) \<longleftrightarrow>
            k - bs - 1 < length x \<and> bit (x ! (k - bs - 1)) (m + 8 - bt)"
          by (simp only: bit_at_cell)
        moreover have "k - bs - 1 < length x" using k by linarith
        moreover have "b \<le> j" using j b True m bt by linarith
        ultimately show ?thesis using lhs gt True jl by simp
      next
        case False
        then have "\<not> b \<le> j" using j b gt by linarith
        with lhs False gt show ?thesis by auto
      qed
    qed
  qed
qed

lemma bit_at_shift_right:
  "bit_at (shift_right x b) j \<longleftrightarrow> bit_at x (j + b)"
proof -
  obtain k m where j: "j = 8 * k + m" and m: "m < 8" by (rule position_split)
  obtain bs bt where b: "b = 8 * bs + bt" and bt: "bt < 8" by (rule position_split)
  show ?thesis
  proof (cases "k < length x")
    case False
    then have "length x * 8 \<le> j" "length x * 8 \<le> j + b" using j by linarith+
    then have "\<not> bit_at (shift_right x b) j" "\<not> bit_at x (j + b)"
      by (simp_all add: bit_at_out_of_range length_shift_right)
    then show ?thesis by blast
  next
    case k: True
    have lhs: "bit_at (shift_right x b) j \<longleftrightarrow>
               k + bs < length x \<and> ((m + bt < 8 \<and> bit (x ! (k + bs)) (m + bt)) \<or>
                 (\<not> (k + bs + 1 = length x \<or> bt = 0) \<and> 8 \<le> m + bt \<and>
                  bit (x ! (k + bs + 1)) (m + bt - 8)))"
      unfolding j b bit_at_cell [OF m] length_shift_right shift_right_cell [OF bt k]
      using k bit_shr_cell [OF m bt] by simp
    show ?thesis
    proof (cases "m + bt < 8")
      case True
      have "j + b = 8 * (k + bs) + (m + bt)" using j b by simp
      then have "bit_at x (j + b) \<longleftrightarrow> k + bs < length x \<and> bit (x ! (k + bs)) (m + bt)"
        using True by (simp only: bit_at_cell)
      with lhs True show ?thesis by simp
    next
      case False
      have "j + b = 8 * (k + bs + 1) + (m + bt - 8)" using j b False by simp
      moreover have "m + bt - 8 < 8" using m bt by linarith
      ultimately have "bit_at x (j + b) \<longleftrightarrow>
          k + bs + 1 < length x \<and> bit (x ! (k + bs + 1)) (m + bt - 8)"
        by (simp only: bit_at_cell)
      moreover have "bt \<noteq> 0" using False m by linarith
      moreover have "k + bs + 1 < length x \<longleftrightarrow> k + bs < length x \<and> k + bs + 1 \<noteq> length x"
        by linarith
      ultimately show ?thesis using lhs False by auto
    qed
  qed
qed

lemma length_bytes_or: "length (bytes_or x y) = length x"
  by (simp add: bytes_or_def length_binop_loop length_zero_bytes)

lemma nth_bytes_or: "k < length x \<Longrightarrow> bytes_or x y ! k = x ! k OR y ! k"
  by (simp add: bytes_or_def nth_binop_loop length_zero_bytes narrow_or)

lemma bit_at_bytes_or:
  "length y = length x \<Longrightarrow> bit_at (bytes_or x y) j \<longleftrightarrow> bit_at x j \<or> bit_at y j"
  by (auto simp add: bit_at_def length_bytes_or nth_bytes_or bit_or_iff)

lemma bytes_eqI:
  assumes len: "length x = length y"
    and bits: "\<And>j. j < length x * 8 \<Longrightarrow> bit_at x j = bit_at y j"
  shows "x = y"
proof (rule nth_equalityI [OF len])
  fix i assume i: "i < length x"
  show "x ! i = y ! i"
  proof (rule bit_word_eqI)
    fix n assume "n < LENGTH(8)"
    then have n: "n < 8" by simp
    then have "8 * i + n < length x * 8" using i by linarith
    from bits [OF this] len i show "bit (x ! i) n = bit (y ! i) n"
      unfolding bit_at_cell [OF n] by simp
  qed
qed

subsection \<open>Rotation\<close>

lemma test_bit_mask: "n < 8 \<Longrightarrow> (promote d AND push_bit n 1) \<noteq> 0 \<longleftrightarrow> bit d n"
proof -
  assume n: "n < 8"
  have "(promote d AND push_bit n 1) \<noteq> 0 \<longleftrightarrow> bit (promote d) n"
    by (simp only: bit_iff_and_push_bit_not_eq_0)
  also have "\<dots> \<longleftrightarrow> bit d n"
    using n by (simp add: promote_def bit_ucast_iff)
  finally show ?thesis .
qed

lemma test_bit_eq_bit_at: "test_bit x j = bit_at x j"
proof (cases "length x * 8 \<le> j")
  case True
  then show ?thesis by (simp add: test_bit_def bit_at_def)
next
  case False
  have "j mod 8 < 8" by simp
  from test_bit_mask [OF this] False show ?thesis
    unfolding test_bit_def bit_at_def by auto
qed

lemma length_rotate_left: "length (rotate_left x n) = length x"
  by (simp add: rotate_left_def Let_def length_bytes_or length_shift_left)

lemma length_rotate_right: "length (rotate_right x n) = length x"
  by (simp add: rotate_right_def Let_def length_bytes_or length_shift_right)

lemma halves_left_disjoint:
  assumes "n < length x * 8"
  shows "\<not> (bit_at (shift_left x n) j \<and> bit_at (shift_right x (length x * 8 - n)) j)"
proof
  assume "bit_at (shift_left x n) j \<and> bit_at (shift_right x (length x * 8 - n)) j"
  then have le: "n \<le> j" and "bit_at x (j + (length x * 8 - n))"
    unfolding bit_at_shift_left bit_at_shift_right by blast+
  then have "j + (length x * 8 - n) < length x * 8"
    unfolding bit_at_def by blast
  with le assms show False by linarith
qed

lemma mod_wrap_sub:
  fixes j n T :: nat
  assumes "n \<le> j" "j < T"
  shows "(j + T - n) mod T = j - n"
proof -
  have "T \<le> j + T - n" using assms by linarith
  then have e1: "(j + T - n) mod T = (j + T - n - T) mod T" by (rule le_mod_geq)
  have e2: "j + T - n - T = j - n" using assms by linarith
  have e3: "j - n < T" using assms by linarith
  show ?thesis unfolding e1 e2 by (rule mod_less [OF e3])
qed

lemma mod_wrap_add:
  fixes j n T :: nat
  assumes "T \<le> j + n" "j < T" "n < T"
  shows "(j + n) mod T = j - (T - n)"
proof -
  have e1: "(j + n) mod T = (j + n - T) mod T" using assms(1) by (rule le_mod_geq)
  have e2: "j + n - T = j - (T - n)" using assms by linarith
  have e3: "j - (T - n) < T" using assms by linarith
  show ?thesis unfolding e1 e2 by (rule mod_less [OF e3])
qed

lemma bit_at_rotate_left:
  assumes n: "n < length x * 8" and j: "j < length x * 8"
  shows "bit_at (rotate_left x n) j = bit_at x ((j + length x * 8 - n) mod (length x * 8))"
proof -
  have nm: "n mod (length x * 8) = n" using n by simp
  have "bit_at (rotate_left x n) j \<longleftrightarrow>
      bit_at (shift_left x n) j \<or> bit_at (shift_right x (length x * 8 - n)) j"
    unfolding rotate_left_def Let_def nm
    by (rule bit_at_bytes_or) (simp add: length_shift_left length_shift_right)
  then have rot: "bit_at (rotate_left x n) j \<longleftrightarrow>
      (n \<le> j \<and> j < length x * 8 \<and> bit_at x (j - n)) \<or> bit_at x (j + (length x * 8 - n))"
    unfolding bit_at_shift_left bit_at_shift_right .
  show ?thesis
  proof (cases "n \<le> j")
    case True
    then have "length x * 8 \<le> j + (length x * 8 - n)" using n by linarith
    then have out: "\<not> bit_at x (j + (length x * 8 - n))" by (rule bit_at_out_of_range)
    from rot out True j have "bit_at (rotate_left x n) j \<longleftrightarrow> bit_at x (j - n)" by blast
    then show ?thesis by (simp only: mod_wrap_sub [OF True j])
  next
    case False
    then have lt: "j + length x * 8 - n < length x * 8"
      and eq: "j + (length x * 8 - n) = j + length x * 8 - n" using n by linarith+
    from rot False have "bit_at (rotate_left x n) j \<longleftrightarrow> bit_at x (j + length x * 8 - n)"
      unfolding eq by blast
    then show ?thesis by (simp only: mod_less [OF lt])
  qed
qed

lemma bit_at_rotate_right:
  assumes n: "n < length x * 8" and j: "j < length x * 8"
  shows "bit_at (rotate_right x n) j = bit_at x ((j + n) mod (length x * 8))"
proof -
  have nm: "n mod (length x * 8) = n" using n by simp
  have "bit_at (rotate_right x n) j \<longleftrightarrow>
      bit_at (shift_right x n) j \<or> bit_at (shift_left x (length x * 8 - n)) j"
    unfolding rotate_right_def Let_def nm
    by (rule bit_at_bytes_or) (simp add: length_shift_left length_shift_right)
  then have rot: "bit_at (rotate_right x n) j \<longleftrightarrow>
      bit_at x (j + n) \<or>
      (length x * 8 - n \<le> j \<and> j < length x * 8 \<and> bit_at x (j - (length x * 8 - n)))"
    unfolding bit_at_shift_left bit_at_shift_right .
  show ?thesis
  proof (cases "j + n < length x * 8")
    case True
    then have "\<not> length x * 8 - n \<le> j" by linarith
    with rot have "bit_at (rotate_right x n) j \<longleftrightarrow> bit_at x (j + n)" by blast
    then show ?thesis by (simp only: mod_less [OF True])
  next
    case False
    then have ge: "length x * 8 \<le> j + n" by simp
    then have out: "\<not> bit_at x (j + n)" by (rule bit_at_out_of_range)
    have le: "length x * 8 - n \<le> j" using ge by linarith
    from rot out le j
    have "bit_at (rotate_right x n) j \<longleftrightarrow> bit_at x (j - (length x * 8 - n))" by blast
    then show ?thesis by (simp only: mod_wrap_add [OF ge j n])
  qed
qed

lemma rotate_position_round_trip:
  fixes j n T :: nat
  assumes "n < T" "j < T"
  shows "((j + n) mod T + T - n) mod T = j"
proof (cases "j + n < T")
  case True
  have e1: "(j + n) mod T = j + n" by (rule mod_less [OF True])
  have e2: "j + n + T - n = j + T" by linarith
  show ?thesis unfolding e1 e2 using assms(2) by simp
next
  case False
  then have ge: "T \<le> j + n" by simp
  have e1: "(j + n) mod T = j - (T - n)" by (rule mod_wrap_add [OF ge assms(2) assms(1)])
  have e2: "j - (T - n) + T - n = j" using ge assms by linarith
  show ?thesis unfolding e1 e2 by (rule mod_less [OF assms(2)])
qed

lemma rotate_left_right:
  assumes n: "n < length x * 8"
  shows "rotate_right (rotate_left x n) n = x"
proof (rule bytes_eqI)
  show "length (rotate_right (rotate_left x n) n) = length x"
    by (simp add: length_rotate_right length_rotate_left)
next
  fix j assume "j < length (rotate_right (rotate_left x n) n) * 8"
  then have j: "j < length x * 8" by (simp add: length_rotate_right length_rotate_left)
  have "0 < length x * 8" using j by linarith
  then have p: "(j + n) mod (length x * 8) < length x * 8" by (rule mod_less_divisor)
  have "bit_at (rotate_right (rotate_left x n) n) j =
        bit_at (rotate_left x n) ((j + n) mod (length x * 8))"
    using bit_at_rotate_right [of n "rotate_left x n" j] n j
    by (simp add: length_rotate_left)
  also have "\<dots> = bit_at x (((j + n) mod (length x * 8) + length x * 8 - n) mod (length x * 8))"
    by (rule bit_at_rotate_left [OF n p])
  also have "\<dots> = bit_at x j"
    by (simp only: rotate_position_round_trip [OF n j])
  finally show "bit_at (rotate_right (rotate_left x n) n) j = bit_at x j" .
qed


section \<open>The claims\<close>

text \<open>
  C1. For \<open>0 < bits < N * 8\<close>, \<open>operator<<\<close> and \<open>operator>>\<close> are logical shifts of the
  whole buffer read as \<open>N * 8\<close> little-endian bits: bit \<open>j\<close> of \<open>x << bits\<close> is bit
  \<open>j - bits\<close> of \<open>x\<close> for \<open>bits \<le> j\<close> and 0 below, bit \<open>j\<close> of \<open>x >> bits\<close> is bit
  \<open>j + bits\<close> of \<open>x\<close> while \<open>j + bits < N * 8\<close> and 0 above; nothing wraps around and the
  size is kept. Bits are read with the container's own \<open>test_bit\<close>.
\<close>
theorem shift_is_logical_shift:
  "0 < bits \<Longrightarrow> bits < length x * 8 \<Longrightarrow>
   length (shift_left x bits) = length x \<and>
   length (shift_right x bits) = length x \<and>
   (\<forall>j < length x * 8.
      test_bit (shift_left x bits) j = (if bits \<le> j then test_bit x (j - bits) else False)) \<and>
   (\<forall>j < length x * 8.
      test_bit (shift_right x bits) j =
        (if j + bits < length x * 8 then test_bit x (j + bits) else False))"
proof (intro conjI allI impI)
  show "length (shift_left x bits) = length x" by (rule length_shift_left)
  show "length (shift_right x bits) = length x" by (rule length_shift_right)
  fix j assume j: "j < length x * 8"
  show "test_bit (shift_left x bits) j = (if bits \<le> j then test_bit x (j - bits) else False)"
    using j by (simp add: test_bit_eq_bit_at bit_at_shift_left)
  show "test_bit (shift_right x bits) j =
        (if j + bits < length x * 8 then test_bit x (j + bits) else False)"
    by (simp add: test_bit_eq_bit_at bit_at_shift_right bit_at_out_of_range)
qed

theorem shift_is_logical_shift_witness:
  "0 < (3::nat) \<and> 3 < length [0x81, 0xFF :: byte_t] * 8 \<and>
   length (shift_left [0x81, 0xFF] 3) = length [0x81, 0xFF :: byte_t] \<and>
   length (shift_right [0x81, 0xFF] 3) = length [0x81, 0xFF :: byte_t] \<and>
   test_bit (shift_left [0x81, 0xFF] 3) 10 =
     (if (3::nat) \<le> 10 then test_bit [0x81, 0xFF] (10 - 3) else False) \<and>
   test_bit (shift_right [0x81, 0xFF] 3) 14 =
     (if 14 + 3 < length [0x81, 0xFF :: byte_t] * 8 then test_bit [0x81, 0xFF] (14 + 3)
      else False)"
proof -
  have h1: "0 < (3::nat)" by simp
  have h2: "3 < length [0x81, 0xFF :: byte_t] * 8" by simp
  have j1: "10 < length [0x81, 0xFF :: byte_t] * 8" by simp
  have j2: "14 < length [0x81, 0xFF :: byte_t] * 8" by simp
  note c = shift_is_logical_shift [OF h1 h2]
  note l1 = c [THEN conjunct1]
  note l2 = c [THEN conjunct2, THEN conjunct1]
  note b1 = c [THEN conjunct2, THEN conjunct2, THEN conjunct1, rule_format, OF j1]
  note b2 = c [THEN conjunct2, THEN conjunct2, THEN conjunct2, rule_format, OF j2]
  show ?thesis by (intro conjI h1 h2 l1 l2 b1 b2)
qed

text \<open>
  C2. For \<open>n < N * 8\<close>, rotating left and then right by \<open>n\<close> gives the container back;
  \<open>rotate_left\<close> is the OR of \<open>x << (n mod N * 8)\<close> and \<open>x >> (N * 8 - n mod N * 8)\<close>; the
  two halves never both have a bit at one position, and bit \<open>j\<close> of the rotation is bit
  \<open>(j - n) mod (N * 8)\<close> of \<open>x\<close>, so every bit of \<open>x\<close> arrives exactly once.
\<close>
theorem rotate_left_then_right:
  "n < length x * 8 \<Longrightarrow>
   rotate_right (rotate_left x n) n = x \<and>
   rotate_left x n =
     bytes_or (shift_left x (n mod (length x * 8)))
              (shift_right x (length x * 8 - n mod (length x * 8))) \<and>
   (\<forall>j < length x * 8.
      \<not> (test_bit (shift_left x (n mod (length x * 8))) j \<and>
         test_bit (shift_right x (length x * 8 - n mod (length x * 8))) j)) \<and>
   (\<forall>j < length x * 8.
      test_bit (rotate_left x n) j = test_bit x ((j + length x * 8 - n) mod (length x * 8)))"
proof (intro conjI allI impI)
  assume n: "n < length x * 8"
  show "rotate_right (rotate_left x n) n = x" by (rule rotate_left_right [OF n])
  show "rotate_left x n =
     bytes_or (shift_left x (n mod (length x * 8)))
              (shift_right x (length x * 8 - n mod (length x * 8)))"
    by (simp add: rotate_left_def Let_def)
  fix j assume j: "j < length x * 8"
  show "\<not> (test_bit (shift_left x (n mod (length x * 8))) j \<and>
         test_bit (shift_right x (length x * 8 - n mod (length x * 8))) j)"
    using halves_left_disjoint [OF n, of j] n by (simp add: test_bit_eq_bit_at)
  show "test_bit (rotate_left x n) j = test_bit x ((j + length x * 8 - n) mod (length x * 8))"
    using bit_at_rotate_left [OF n j] by (simp add: test_bit_eq_bit_at)
qed

theorem rotate_left_then_right_witness:
  "13 < length [0x81, 0xFF, 0x02 :: byte_t] * 8 \<and>
   rotate_right (rotate_left [0x81, 0xFF, 0x02] 13) 13 = [0x81, 0xFF, 0x02]"
proof -
  have h: "13 < length [0x81, 0xFF, 0x02 :: byte_t] * 8" by simp
  from rotate_left_then_right [OF h]
  have "rotate_right (rotate_left [0x81, 0xFF, 0x02] 13) 13 = [0x81, 0xFF, 0x02]" by (rule conjunct1)
  with h show ?thesis by (rule conjI)
qed

subsection \<open>Identity and saturation of the shifts\<close>

text \<open>
  C6. Shifting by 0 in either direction returns the container itself, and shifting by
  \<open>N * 8\<close> bits or more in either direction returns the all-zero container.
\<close>
theorem shift_identity_and_saturation:
  "shift_left x 0 = x \<and> shift_right x 0 = x \<and>
   (length x * 8 \<le> bits \<longrightarrow>
      shift_left x bits = replicate (length x) 0 \<and>
      shift_right x bits = replicate (length x) 0)"
  by (auto simp add: shift_left_def shift_right_def zero_bytes_def)

theorem shift_identity_and_saturation_witness:
  "length [1, 2 :: byte_t] * 8 \<le> 17 \<and>
   shift_left [1, 2] 17 = replicate (length [1, 2 :: byte_t]) 0 \<and>
   shift_right [1, 2] 17 = replicate (length [1, 2 :: byte_t]) 0"
proof -
  have h: "length [1, 2 :: byte_t] * 8 \<le> 17" by simp
  from shift_identity_and_saturation [of "[1, 2]" 17]
  have "length [1, 2 :: byte_t] * 8 \<le> 17 \<longrightarrow>
      shift_left [1, 2] 17 = replicate (length [1, 2 :: byte_t]) 0 \<and>
      shift_right [1, 2] 17 = replicate (length [1, 2 :: byte_t]) 0"
    by (elim conjE)
  with h show ?thesis by blast
qed

subsection \<open>Clamped element access\<close>

text \<open>
  C7. For every index \<open>i\<close>, also \<open>i \<ge> N\<close>, both overloads of \<open>operator[]\<close> designate the
  cell \<open>min i (N - 1)\<close>, which is a cell of the array: the \<open>const\<close> one returns its byte, the
  mutable one a reference to it, and neither ever leaves the array.
\<close>
theorem subscript_clamps:
  "0 < length x \<Longrightarrow>
   subscript_const x i = Some (x ! min i (length x - 1)) \<and>
   subscript x i = Some (min i (length x - 1)) \<and>
   min i (length x - 1) < length x"
proof -
  assume "0 < length x"
  then have "min i (length x - 1) < length x" by linarith
  then show ?thesis by (simp add: subscript_const_def subscript_def cell_def)
qed

theorem subscript_clamps_witness:
  "0 < length [1, 2, 3 :: byte_t] \<and>
   subscript_const [1, 2, 3] 7 = Some ([1, 2, 3] ! min 7 (length [1, 2, 3 :: byte_t] - 1)) \<and>
   subscript [1, 2, 3 :: byte_t] 7 = Some (min 7 (length [1, 2, 3 :: byte_t] - 1)) \<and>
   min 7 (length [1, 2, 3 :: byte_t] - 1) < length [1, 2, 3 :: byte_t]"
proof -
  have h: "0 < length [1, 2, 3 :: byte_t]" by simp
  show ?thesis by (rule conjI [OF h subscript_clamps [OF h]])
qed

subsection \<open>Single-bit operations\<close>

lemma narrow_set:
  "n < 8 \<Longrightarrow> bit (narrow (promote d OR push_bit n 1)) i \<longleftrightarrow> i = n \<or> bit d i"
  unfolding narrow_def promote_def
  by (auto simp add: bit_simps dest: bit_imp_le_length)

lemma narrow_clear:
  "n < 8 \<Longrightarrow> bit (narrow (promote d AND NOT (push_bit n 1))) i \<longleftrightarrow> i \<noteq> n \<and> bit d i"
  unfolding narrow_def promote_def
  by (auto simp add: bit_simps dest: bit_imp_le_length)

lemma narrow_toggle:
  "n < 8 \<Longrightarrow> bit (narrow (promote d XOR push_bit n 1)) i \<longleftrightarrow> (if i = n then \<not> bit d i else bit d i)"
  unfolding narrow_def promote_def
  by (auto simp add: bit_simps dest: bit_imp_le_length)

lemma position_eq_iff:
  fixes k m k' m' :: nat
  assumes "m < 8" "m' < 8"
  shows "8 * k' + m' = 8 * k + m \<longleftrightarrow> k' = k \<and> m' = m"
proof
  assume e: "8 * k' + m' = 8 * k + m"
  have "k' = (8 * k' + m') div 8"
    by (rule div_mod_8_unique(1) [OF assms(2) refl, symmetric])
  also have "\<dots> = (8 * k + m) div 8" by (simp only: e)
  also have "\<dots> = k" by (rule div_mod_8_unique(1) [OF assms(1) refl])
  finally have "k' = k" .
  with e show "k' = k \<and> m' = m" by simp
next
  assume "k' = k \<and> m' = m"
  then show "8 * k' + m' = 8 * k + m" by simp
qed

lemma set_bit_cell:
  assumes m: "m < 8" and k: "k < length x"
  shows "set_bit_bytes x (8 * k + m) = x[k := narrow (promote (x ! k) OR push_bit m 1)]"
proof -
  have "(8 * k + m) div 8 = k" "(8 * k + m) mod 8 = m"
    by (rule div_mod_8_unique [OF m refl])+
  moreover have "8 * k + m < length x * 8" using m k by linarith
  ultimately show ?thesis unfolding set_bit_bytes_def by (simp only: if_True)
qed

lemma clear_bit_cell:
  assumes m: "m < 8" and k: "k < length x"
  shows "clear_bit x (8 * k + m) = x[k := narrow (promote (x ! k) AND NOT (push_bit m 1))]"
proof -
  have "(8 * k + m) div 8 = k" "(8 * k + m) mod 8 = m"
    by (rule div_mod_8_unique [OF m refl])+
  moreover have "8 * k + m < length x * 8" using m k by linarith
  ultimately show ?thesis unfolding clear_bit_def by (simp only: if_True)
qed

lemma toggle_bit_cell:
  assumes m: "m < 8" and k: "k < length x"
  shows "toggle_bit x (8 * k + m) = x[k := narrow (promote (x ! k) XOR push_bit m 1)]"
proof -
  have "(8 * k + m) div 8 = k" "(8 * k + m) mod 8 = m"
    by (rule div_mod_8_unique [OF m refl])+
  moreover have "8 * k + m < length x * 8" using m k by linarith
  ultimately show ?thesis unfolding toggle_bit_def by (simp only: if_True)
qed

lemma bit_at_update:
  assumes "m' < 8" "k < length x"
  shows "bit_at (x[k := v]) (8 * k' + m') \<longleftrightarrow>
           k' < length x \<and> (if k' = k then bit v m' else bit (x ! k') m')"
  using assms by (simp add: bit_at_cell nth_list_update)

lemma bit_at_set_bit:
  assumes p: "p < length x * 8"
  shows "bit_at (set_bit_bytes x p) q \<longleftrightarrow> q < length x * 8 \<and> (q = p \<or> bit_at x q)"
proof -
  obtain k m where pe: "p = 8 * k + m" and m: "m < 8" by (rule position_split)
  obtain k' m' where qe: "q = 8 * k' + m'" and m': "m' < 8" by (rule position_split)
  have k: "k < length x" using p pe by linarith
  have ql: "q < length x * 8 \<longleftrightarrow> k' < length x" using qe m' by linarith
  have eq: "q = p \<longleftrightarrow> k' = k \<and> m' = m" unfolding pe qe by (rule position_eq_iff [OF m m'])
  show ?thesis
    unfolding ql eq unfolding pe qe set_bit_cell [OF m k] bit_at_update [OF m' k]
    unfolding bit_at_cell [OF m']
    using narrow_set [OF m, of "x ! k" m'] k by (cases "k' = k") auto
qed

lemma bit_at_clear_bit:
  assumes p: "p < length x * 8"
  shows "bit_at (clear_bit x p) q \<longleftrightarrow> q \<noteq> p \<and> bit_at x q"
proof -
  obtain k m where pe: "p = 8 * k + m" and m: "m < 8" by (rule position_split)
  obtain k' m' where qe: "q = 8 * k' + m'" and m': "m' < 8" by (rule position_split)
  have k: "k < length x" using p pe by linarith
  have eq: "q = p \<longleftrightarrow> k' = k \<and> m' = m" unfolding pe qe by (rule position_eq_iff [OF m m'])
  show ?thesis
    unfolding eq unfolding pe qe clear_bit_cell [OF m k] bit_at_update [OF m' k]
    unfolding bit_at_cell [OF m']
    using narrow_clear [OF m, of "x ! k" m'] k by (cases "k' = k") auto
qed

lemma bit_at_toggle_bit:
  assumes p: "p < length x * 8"
  shows "bit_at (toggle_bit x p) q \<longleftrightarrow> (if q = p then \<not> bit_at x q else bit_at x q)"
proof -
  obtain k m where pe: "p = 8 * k + m" and m: "m < 8" by (rule position_split)
  obtain k' m' where qe: "q = 8 * k' + m'" and m': "m' < 8" by (rule position_split)
  have k: "k < length x" using p pe by linarith
  have eq: "q = p \<longleftrightarrow> k' = k \<and> m' = m" unfolding pe qe by (rule position_eq_iff [OF m m'])
  show ?thesis
    unfolding eq unfolding pe qe toggle_bit_cell [OF m k] bit_at_update [OF m' k]
    unfolding bit_at_cell [OF m']
    using narrow_toggle [OF m, of "x ! k" m'] k by (cases "k' = k") auto
qed

lemma length_set_bit: "length (set_bit_bytes x p) = length x"
  by (simp add: set_bit_bytes_def)

lemma length_clear_bit: "length (clear_bit x p) = length x"
  by (simp add: clear_bit_def)

lemma length_toggle_bit: "length (toggle_bit x p) = length x"
  by (simp add: toggle_bit_def)

lemma other_cells_set_bit: "i \<noteq> p div 8 \<Longrightarrow> set_bit_bytes x p ! i = x ! i"
  by (simp add: set_bit_bytes_def)

lemma other_cells_clear_bit: "i \<noteq> p div 8 \<Longrightarrow> clear_bit x p ! i = x ! i"
  by (simp add: clear_bit_def)

lemma other_cells_toggle_bit: "i \<noteq> p div 8 \<Longrightarrow> toggle_bit x p ! i = x ! i"
  by (simp add: toggle_bit_def)

text \<open>
  C8. For a position \<open>pos \<ge> N * 8\<close>, \<open>set_bit\<close>, \<open>clear_bit\<close> and \<open>toggle_bit\<close> leave the
  container as it was and \<open>test_bit\<close> returns false.
\<close>
theorem bit_ops_out_of_range:
  "length x * 8 \<le> pos \<Longrightarrow>
   set_bit_bytes x pos = x \<and> clear_bit x pos = x \<and> toggle_bit x pos = x \<and>
   test_bit x pos = False"
  by (simp add: set_bit_bytes_def clear_bit_def toggle_bit_def test_bit_def)

theorem bit_ops_out_of_range_witness:
  "length [0xFF, 0x0F :: byte_t] * 8 \<le> 16 \<and>
   set_bit_bytes [0xFF, 0x0F] 16 = [0xFF, 0x0F] \<and>
   clear_bit [0xFF, 0x0F] 16 = [0xFF, 0x0F] \<and>
   toggle_bit [0xFF, 0x0F] 16 = [0xFF, 0x0F] \<and>
   test_bit [0xFF, 0x0F] 16 = False"
proof -
  have h: "length [0xFF, 0x0F :: byte_t] * 8 \<le> 16" by simp
  show ?thesis by (rule conjI [OF h bit_ops_out_of_range [OF h]])
qed

text \<open>
  C9. For a position \<open>p < N * 8\<close>, \<open>set_bit\<close>, \<open>clear_bit\<close> and \<open>toggle_bit\<close> keep the size,
  leave every cell other than \<open>p div 8\<close> as it was, and in cell \<open>p div 8\<close> leave every bit
  other than \<open>p mod 8\<close> as it was.
\<close>
theorem bit_ops_frame:
  "p < length x * 8 \<Longrightarrow>
   length (set_bit_bytes x p) = length x \<and>
   length (clear_bit x p) = length x \<and>
   length (toggle_bit x p) = length x \<and>
   (\<forall>i < length x. i \<noteq> p div 8 \<longrightarrow>
      set_bit_bytes x p ! i = x ! i \<and> clear_bit x p ! i = x ! i \<and> toggle_bit x p ! i = x ! i) \<and>
   (\<forall>b < 8. b \<noteq> p mod 8 \<longrightarrow>
      bit (set_bit_bytes x p ! (p div 8)) b = bit (x ! (p div 8)) b \<and>
      bit (clear_bit x p ! (p div 8)) b = bit (x ! (p div 8)) b \<and>
      bit (toggle_bit x p ! (p div 8)) b = bit (x ! (p div 8)) b)"
proof (intro conjI allI impI)
  assume p: "p < length x * 8"
  then have k: "p div 8 < length x" by simp
  have m: "p mod 8 < 8" by simp
  show "length (set_bit_bytes x p) = length x" by (rule length_set_bit)
  show "length (clear_bit x p) = length x" by (rule length_clear_bit)
  show "length (toggle_bit x p) = length x" by (rule length_toggle_bit)
  {
    fix i assume "i \<noteq> p div 8"
    then show "set_bit_bytes x p ! i = x ! i" by (rule other_cells_set_bit)
    from \<open>i \<noteq> p div 8\<close> show "clear_bit x p ! i = x ! i" by (rule other_cells_clear_bit)
    from \<open>i \<noteq> p div 8\<close> show "toggle_bit x p ! i = x ! i" by (rule other_cells_toggle_bit)
  }
  fix b :: nat assume b: "b \<noteq> p mod 8"
  have "set_bit_bytes x p ! (p div 8) = narrow (promote (x ! (p div 8)) OR push_bit (p mod 8) 1)"
    unfolding set_bit_bytes_def using p k by (simp del: push_bit_of_1)
  then show "bit (set_bit_bytes x p ! (p div 8)) b = bit (x ! (p div 8)) b"
    using narrow_set [OF m, of "x ! (p div 8)" b] b by simp
  have "clear_bit x p ! (p div 8) = narrow (promote (x ! (p div 8)) AND NOT (push_bit (p mod 8) 1))"
    unfolding clear_bit_def using p k by (simp del: push_bit_of_1)
  then show "bit (clear_bit x p ! (p div 8)) b = bit (x ! (p div 8)) b"
    using narrow_clear [OF m, of "x ! (p div 8)" b] b by simp
  have "toggle_bit x p ! (p div 8) = narrow (promote (x ! (p div 8)) XOR push_bit (p mod 8) 1)"
    unfolding toggle_bit_def using p k by (simp del: push_bit_of_1)
  then show "bit (toggle_bit x p ! (p div 8)) b = bit (x ! (p div 8)) b"
    using narrow_toggle [OF m, of "x ! (p div 8)" b] b by simp
qed

theorem bit_ops_frame_witness:
  "10 < length [0xF0, 0x0F :: byte_t] * 8 \<and>
   length (set_bit_bytes [0xF0, 0x0F] 10) = length [0xF0, 0x0F :: byte_t] \<and>
   set_bit_bytes [0xF0, 0x0F] 10 ! 0 = [0xF0, 0x0F] ! 0 \<and>
   clear_bit [0xF0, 0x0F] 10 ! 0 = [0xF0, 0x0F] ! 0 \<and>
   toggle_bit [0xF0, 0x0F] 10 ! 0 = [0xF0, 0x0F] ! 0 \<and>
   bit (set_bit_bytes [0xF0, 0x0F] 10 ! (10 div 8)) 3 = bit ([0xF0, 0x0F :: byte_t] ! (10 div 8)) 3 \<and>
   bit (clear_bit [0xF0, 0x0F] 10 ! (10 div 8)) 3 = bit ([0xF0, 0x0F :: byte_t] ! (10 div 8)) 3 \<and>
   bit (toggle_bit [0xF0, 0x0F] 10 ! (10 div 8)) 3 = bit ([0xF0, 0x0F :: byte_t] ! (10 div 8)) 3"
proof -
  have h: "10 < length [0xF0, 0x0F :: byte_t] * 8" by simp
  have i: "0 < length [0xF0, 0x0F :: byte_t]" by simp
  have ne: "(0::nat) \<noteq> 10 div 8" by simp
  have b: "(3::nat) < 8" by simp
  have nb: "(3::nat) \<noteq> 10 mod 8" by simp
  note c = bit_ops_frame [OF h]
  note l = c [THEN conjunct1]
  note cells = c [THEN conjunct2, THEN conjunct2, THEN conjunct2, THEN conjunct1,
                 rule_format, OF i ne]
  note bits = c [THEN conjunct2, THEN conjunct2, THEN conjunct2, THEN conjunct2,
                rule_format, OF b nb]
  show ?thesis by (intro conjI h l cells [THEN conjunct1] cells [THEN conjunct2, THEN conjunct1]
      cells [THEN conjunct2, THEN conjunct2] bits [THEN conjunct1]
      bits [THEN conjunct2, THEN conjunct1] bits [THEN conjunct2, THEN conjunct2])
qed

subsection \<open>Integer conversions\<close>

lemma length_object_bytes: "length (object_bytes v) = sizeof_word v"
  by (simp add: object_bytes_def)

lemma nth_object_bytes:
  "k < sizeof_word v \<Longrightarrow> object_bytes v ! k = ucast (drop_bit (8 * k) v)"
  by (simp add: object_bytes_def)

lemma bit_object_value:
  assumes m: "m < 8"
  shows "bit (object_value bs :: 'a::len word) (8 * k + m) \<longleftrightarrow>
           8 * k + m < LENGTH('a) \<and> k < length bs \<and> bit (bs ! k) m"
proof (induction bs arbitrary: k)
  case Nil
  show ?case by simp
next
  case (Cons b bs)
  show ?case
  proof (cases k)
    case 0
    with m show ?thesis
      by (simp add: bit_or_iff bit_ucast_iff bit_push_bit_iff)
  next
    case (Suc k')
    have "\<not> bit b (8 * Suc k' + m)"
    proof
      assume "bit b (8 * Suc k' + m)"
      then have "8 * Suc k' + m < 8" by (rule bit_byte_bound)
      then show False by simp
    qed
    moreover have "8 * Suc k' + m - 8 = 8 * k' + m" by simp
    moreover have "8 * k' + m < LENGTH('a)" if "8 * Suc k' + m < LENGTH('a)"
      using that by simp
    ultimately show ?thesis
      using Suc Cons.IH [of k']
      by (auto simp add: bit_or_iff bit_ucast_iff bit_push_bit_iff)
  qed
qed

lemma object_value_object_bytes:
  fixes v :: "'a::len word"
  assumes len: "LENGTH('a) = 8 * sz"
  shows "object_value (object_bytes v) = v"
proof (rule bit_word_eqI)
  fix n assume n: "n < LENGTH('a)"
  obtain k m where ne: "n = 8 * k + m" and m: "m < 8" by (rule position_split)
  have sz: "sizeof_word v = sz" by (simp add: sizeof_word_def len)
  have k: "k < sz" using n ne len by linarith
  have "bit (object_value (object_bytes v) :: 'a word) n \<longleftrightarrow> bit (object_bytes v ! k) m"
    unfolding ne bit_object_value [OF m] length_object_bytes sz
    using n ne k by simp
  also have "\<dots> \<longleftrightarrow> bit v (8 * k + m)"
    using k m by (simp add: nth_object_bytes sz bit_ucast_iff bit_drop_bit_eq)
  finally show "bit (object_value (object_bytes v) :: 'a word) n = bit v n"
    unfolding ne .
qed

lemma from_int_exact:
  fixes v :: "'a::len word"
  assumes len: "LENGTH('a) = 8 * N"
  shows "from_int N v = object_bytes v"
proof -
  have sz: "sizeof_word v = N" by (simp add: sizeof_word_def len)
  show ?thesis
    by (simp add: from_int_def Let_def sz memcpy_def zero_bytes_def length_object_bytes)
qed

lemma to_int_exact:
  assumes len: "LENGTH('a::len) = 8 * length x"
  shows "(to_int x :: 'a word) = object_value x"
proof -
  have sz: "sizeof_word (0 :: 'a word) = length x" by (simp add: sizeof_word_def len)
  show ?thesis
    by (simp add: to_int_def Let_def sz memcpy_def length_object_bytes)
qed

text \<open>
  C3. For an integral type of \<open>N\<close> bytes (a word of \<open>8 * N\<close> bits), building the container
  from a value \<open>v\<close> and converting it back with \<open>to_int\<close> at the same type returns \<open>v\<close>.
\<close>
theorem int_round_trip:
  fixes v :: "'a::len word"
  shows "LENGTH('a) = 8 * N \<Longrightarrow> to_int (from_int N v) = v"
proof -
  assume len: "LENGTH('a) = 8 * N"
  have l: "length (object_bytes v) = N"
    by (simp add: length_object_bytes sizeof_word_def len)
  have "(to_int (object_bytes v) :: 'a word) = object_value (object_bytes v)"
    by (rule to_int_exact) (simp add: l len)
  then show ?thesis
    by (simp only: from_int_exact [OF len] object_value_object_bytes [OF len])
qed

theorem int_round_trip_witness:
  "LENGTH(32) = 8 * 4 \<and> to_int (from_int 4 (0x01020304 :: 32 word)) = (0x01020304 :: 32 word)"
proof -
  have h: "LENGTH(32) = 8 * 4" by simp
  show ?thesis by (rule conjI [OF h int_round_trip [OF h]])
qed

subsection \<open>The concrete scenario\<close>

lemma scenario_from_int: "from_int 4 (0x01020304 :: 32 word) = [0x04, 0x03, 0x02, 0x01]"
  by code_simp

lemma scenario_shift_left: "shift_left [0x04, 0x03, 0x02, 0x01] 8 = [0x00, 0x04, 0x03, 0x02]"
  by code_simp

lemma scenario_shift_right: "shift_right [0x04, 0x03, 0x02, 0x01] 8 = [0x03, 0x02, 0x01, 0x00]"
  by code_simp

lemma scenario_rotate_left: "rotate_left [0x04, 0x03, 0x02, 0x01] 8 = [0x01, 0x04, 0x03, 0x02]"
  by code_simp

lemma scenario_popcount: "popcount [0x0F, 0, 0, 0] = 4"
  by code_simp

lemma scenario_print_hex:
  "os_text (print_hex init_stream [0x04, 0x03, 0x02, 0x01]) = ''0x01020304''"
  by code_simp

text \<open>
  C5. The scenario for \<open>N = 4\<close>: \<open>0x01020304\<close> is stored as \<open>[04, 03, 02, 01]\<close>; shifting that
  left by 8 gives \<open>[00, 04, 03, 02]\<close>, right by 8 gives \<open>[03, 02, 01, 00]\<close>, rotating it left by
  8 gives \<open>[01, 04, 03, 02]\<close>; the popcount of \<open>[0F, 0, 0, 0]\<close> is 4; and \<open>print_hex\<close> writes
  \<open>0x01020304\<close> for \<open>[04, 03, 02, 01]\<close> to a stream that nothing has touched yet.
\<close>
theorem concrete_scenario:
  "from_int 4 (0x01020304 :: 32 word) = [0x04, 0x03, 0x02, 0x01] \<and>
   shift_left [0x04, 0x03, 0x02, 0x01] 8 = [0x00, 0x04, 0x03, 0x02] \<and>
   shift_right [0x04, 0x03, 0x02, 0x01] 8 = [0x03, 0x02, 0x01, 0x00] \<and>
   rotate_left [0x04, 0x03, 0x02, 0x01] 8 = [0x01, 0x04, 0x03, 0x02] \<and>
   popcount [0x0F, 0, 0, 0] = 4 \<and>
   os_text (print_hex init_stream [0x04, 0x03, 0x02, 0x01]) = ''0x01020304''"
  by (intro conjI scenario_from_int scenario_shift_left scenario_shift_right
        scenario_rotate_left scenario_popcount scenario_print_hex)

subsection \<open>Comparison\<close>

lemma spaceship_less_iff:
  "length x = length y \<Longrightarrow>
   spaceship x y = strong_less \<longleftrightarrow>
     (\<exists>k < length x. take k x = take k y \<and> x ! k < y ! k)"
proof (induction x y rule: list_induct2)
  case Nil
  show ?case by simp
next
  case (Cons a as b bs)
  show ?case
  proof (cases "a = b")
    case True
    have "(\<exists>k < length (a # as). take k (a # as) = take k (b # bs) \<and> (a # as) ! k < (b # bs) ! k)
          \<longleftrightarrow> (\<exists>k < length as. take k as = take k bs \<and> as ! k < bs ! k)"
      (is "?L \<longleftrightarrow> ?R")
    proof
      assume ?L
      then obtain k where k: "k < length (a # as)" "take k (a # as) = take k (b # bs)"
        "(a # as) ! k < (b # bs) ! k" by blast
      with True obtain k' where "k = Suc k'" by (cases k) auto
      with k show ?R by auto
    next
      assume ?R
      then obtain k where "k < length as" "take k as = take k bs" "as ! k < bs ! k" by blast
      with True have "Suc k < length (a # as) \<and> take (Suc k) (a # as) = take (Suc k) (b # bs)
          \<and> (a # as) ! Suc k < (b # bs) ! Suc k" by simp
      then show ?L by blast
    qed
    with True Cons.IH show ?thesis by simp
  next
    case False
    show ?thesis
    proof (cases "a < b")
      case True
      then have "0 < length (a # as) \<and> take 0 (a # as) = take 0 (b # bs) \<and> (a # as) ! 0 < (b # bs) ! 0"
        by simp
      then have "\<exists>k < length (a # as). take k (a # as) = take k (b # bs) \<and> (a # as) ! k < (b # bs) ! k"
        by blast
      with True show ?thesis by simp
    next
      case nlt: False
      have "\<not> (\<exists>k < length (a # as). take k (a # as) = take k (b # bs) \<and> (a # as) ! k < (b # bs) ! k)"
      proof
        assume "\<exists>k < length (a # as). take k (a # as) = take k (b # bs) \<and> (a # as) ! k < (b # bs) ! k"
        then obtain k where k: "take k (a # as) = take k (b # bs)" "(a # as) ! k < (b # bs) ! k"
          by blast
        show False
        proof (cases k)
          case 0
          with k nlt show False by simp
        next
          case (Suc k')
          with k False show False by simp
        qed
      qed
      moreover have "spaceship (a # as) (b # bs) \<noteq> strong_less"
        using nlt False by simp
      ultimately show ?thesis by blast
    qed
  qed
qed

lemma example_order: "spaceship [0x00, 0x01] [0x01, 0x00] = strong_less"
  by simp

lemma example_x: "(to_int [0x00, 0x01] :: 16 word) = 0x0100"
  by code_simp

lemma example_y: "(to_int [0x01, 0x00] :: 16 word) = 0x0001"
  by code_simp

text \<open>
  C10. \<open>operator<=>\<close> orders two containers by the first index, counted from 0, at which
  their bytes differ. Byte 0 is the least significant byte of \<open>to_int\<close>, so the order is
  not the numeric one: for \<open>N = 2\<close>, \<open>[00, 01]\<close> is ordered before \<open>[01, 00]\<close> although as
  \<open>uint16_t\<close> the first is 256 and the second is 1.
\<close>
theorem order_is_not_numeric:
  "(\<forall>x y. length x = length y \<longrightarrow>
      (spaceship x y = strong_less \<longleftrightarrow>
         (\<exists>k < length x. take k x = take k y \<and> x ! k < y ! k))) \<and>
   length [0x00, 0x01 :: byte_t] = 2 \<and> length [0x01, 0x00 :: byte_t] = 2 \<and>
   spaceship [0x00, 0x01] [0x01, 0x00] = strong_less \<and>
   (to_int [0x01, 0x00] :: 16 word) < to_int [0x00, 0x01]"
proof (intro conjI allI impI)
  fix x y :: bytes assume "length x = length y"
  then show "spaceship x y = strong_less \<longleftrightarrow>
         (\<exists>k < length x. take k x = take k y \<and> x ! k < y ! k)"
    by (rule spaceship_less_iff)
next
  show "spaceship [0x00, 0x01] [0x01, 0x00] = strong_less" by (rule example_order)
  show "(to_int [0x01, 0x00] :: 16 word) < to_int [0x00, 0x01]"
    unfolding example_x example_y by simp
qed simp_all

theorem order_is_not_numeric_witness:
  "length [0x00, 0x01 :: byte_t] = length [0x01, 0x00 :: byte_t] \<and>
   (spaceship [0x00, 0x01] [0x01, 0x00] = strong_less \<longleftrightarrow>
      (\<exists>k < length [0x00, 0x01 :: byte_t].
          take k [0x00, 0x01 :: byte_t] = take k [0x01, 0x00] \<and>
          [0x00, 0x01 :: byte_t] ! k < [0x01, 0x00] ! k))"
proof -
  have h: "length [0x00, 0x01 :: byte_t] = length [0x01, 0x00 :: byte_t]" by simp
  from order_is_not_numeric
  have "\<forall>x y. length x = length y \<longrightarrow>
      (spaceship x y = strong_less \<longleftrightarrow>
         (\<exists>k < length x. take k x = take k y \<and> x ! k < y ! k))"
    by (rule conjunct1)
  then have "length [0x00, 0x01 :: byte_t] = length [0x01, 0x00 :: byte_t] \<longrightarrow>
      (spaceship [0x00, 0x01] [0x01, 0x00] = strong_less \<longleftrightarrow>
         (\<exists>k < length [0x00, 0x01 :: byte_t].
            take k [0x00, 0x01 :: byte_t] = take k [0x01, 0x00] \<and>
            [0x00, 0x01 :: byte_t] ! k < [0x01, 0x00] ! k))"
    by blast
  with h show ?thesis by blast
qed

subsection \<open>Textual output\<close>

lemma insert_text_plain:
  "os_good os \<Longrightarrow> os_width os = 0 \<Longrightarrow>
   insert_text os s = os\<lparr>os_text := os_text os @ s\<rparr>"
  by (simp add: insert_text_def)

lemma digit_test: "n < 8 \<Longrightarrow> (drop_bit n (promote d) AND 1) \<noteq> 0 \<longleftrightarrow> bit d n"
proof -
  assume n: "n < 8"
  have "(drop_bit n (promote d) AND 1) \<noteq> 0 \<longleftrightarrow> odd (drop_bit n (promote d))"
    by (simp add: and_one_eq odd_iff_mod_2_eq_one)
  also have "\<dots> \<longleftrightarrow> bit (promote d) n" by (simp only: bit_iff_odd_drop_bit)
  also have "\<dots> \<longleftrightarrow> bit d n" using n by (simp add: promote_def bit_ucast_iff)
  finally show ?thesis .
qed

lemma bits_loop_done: "bits_loop d (- 1) os = os"
  by (subst bits_loop.simps) simp

lemma bits_loop_step:
  "n < 8 \<Longrightarrow> bits_loop d (int n) os =
     bits_loop d (int n - 1) (insert_text os [if bit d n then CHR ''1'' else CHR ''0''])"
  by (subst bits_loop.simps) (simp add: digit_test)

lemma bits_loop_closed:
  "n < 8 \<Longrightarrow> os_good os \<Longrightarrow> os_width os = 0 \<Longrightarrow>
   bits_loop d (int n) os =
     os\<lparr>os_text := os_text os @
           map (\<lambda>j. if bit d j then CHR ''1'' else CHR ''0'') (rev [0..<Suc n])\<rparr>"
proof (induction n arbitrary: os)
  case 0
  have "bits_loop d (int 0) os =
        bits_loop d (int 0 - 1) (insert_text os [if bit d 0 then CHR ''1'' else CHR ''0''])"
    by (rule bits_loop_step) simp
  with 0 show ?case by (simp add: bits_loop_done insert_text_plain)
next
  case (Suc n)
  then have n: "n < 8" by simp
  let ?os = "os\<lparr>os_text := os_text os @ [if bit d (Suc n) then CHR ''1'' else CHR ''0'']\<rparr>"
  have "bits_loop d (int (Suc n)) os =
        bits_loop d (int (Suc n) - 1)
          (insert_text os [if bit d (Suc n) then CHR ''1'' else CHR ''0''])"
    by (rule bits_loop_step [OF Suc.prems(1)])
  also have "int (Suc n) - 1 = int n" by simp
  also have "insert_text os [if bit d (Suc n) then CHR ''1'' else CHR ''0''] = ?os"
    using Suc.prems by (simp add: insert_text_plain)
  finally have "bits_loop d (int (Suc n)) os = bits_loop d (int n) ?os" .
  moreover have "os_good ?os" "os_width ?os = 0" using Suc.prems by simp_all
  ultimately show ?case using Suc.IH [OF n, of ?os] by simp
qed

lemma rev_upt_8: "rev [0..<Suc 7] = [7, 6, 5, 4, 3, 2, 1, 0]"
  by code_simp

lemma bits_loop_7:
  assumes "os_good os" "os_width os = 0"
  shows "bits_loop d 7 os = os\<lparr>os_text := os_text os @ binary_digits d\<rparr>"
proof -
  have "bits_loop d (int 7) os =
     os\<lparr>os_text := os_text os @
           map (\<lambda>j. if bit d j then CHR ''1'' else CHR ''0'') (rev [0..<Suc 7])\<rparr>"
    by (rule bits_loop_closed [OF _ assms]) simp
  then show ?thesis unfolding rev_upt_8 binary_digits_def by simp
qed

lemma out_loop_closed:
  "i \<le> length b \<Longrightarrow> os_good os \<Longrightarrow> os_width os = 0 \<Longrightarrow>
   out_loop b i os =
     os\<lparr>os_text := os_text os @ space_separated (map binary_digits (drop i b))\<rparr>"
proof (induction b i os rule: out_loop.induct)
  case (1 b i os)
  note good = \<open>os_good os\<close> and w = \<open>os_width os = 0\<close>
  show ?case
  proof (cases "i < length b")
    case False
    with 1 show ?thesis by (subst out_loop.simps) simp
  next
    case True
    then have d: "drop i b = b ! i # drop (Suc i) b" by (simp add: Cons_nth_drop_Suc)
    let ?os1 = "os\<lparr>os_text := os_text os @ binary_digits (b ! i)\<rparr>"
    have os1: "bits_loop (b ! i) 7 os = ?os1" by (rule bits_loop_7 [OF good w])
    have g1: "os_good ?os1" and w1: "os_width ?os1 = 0" using good w by simp_all
    show ?thesis
    proof (cases "i = length b - 1")
      case last: True
      then have e: "drop (Suc i) b = []" using True by simp
      have nlt: "\<not> i + 1 < length b" using True last by linarith
      have lastF: "(i \<noteq> length b - Suc 0) = False" using last by simp
      have "out_loop b i os = out_loop b (i + 1) ?os1"
        using True by (subst out_loop.simps) (simp add: os1 lastF Let_def)
      also have "\<dots> = ?os1"
        using nlt by (subst out_loop.simps) simp
      finally show ?thesis unfolding d e by simp
    next
      case more: False
      then have "Suc i < length b" using True by linarith
      then obtain t ts where e: "drop (Suc i) b = t # ts"
        by (cases "drop (Suc i) b") auto
      let ?os2 = "os\<lparr>os_text := os_text os @ binary_digits (b ! i) @ '' ''\<rparr>"
      have os2: "insert_text ?os1 '' '' = ?os2"
        using g1 w1 by (simp add: insert_text_plain)
      have g2: "os_good ?os2" and w2: "os_width ?os2 = 0" using good w by simp_all
      have i2: "i + 1 \<le> length b" using True by simp
      have "out_loop b i os = out_loop b (i + 1) ?os2"
        using True more by (subst out_loop.simps) (simp add: os1 os2 Let_def)
      also have "\<dots> = ?os2\<lparr>os_text := os_text ?os2 @
                       space_separated (map binary_digits (drop (i + 1) b))\<rparr>"
      proof -
        let ?X = "if i \<noteq> length b - 1 then insert_text (bits_loop (b ! i) 7 os) '' ''
                  else bits_loop (b ! i) 7 os"
        have X: "?X = ?os2" using more by (simp add: os1 os2)
        have gX: "os_good ?X" and wX: "os_width ?X = 0" unfolding X using good w by simp_all
        have "out_loop b (i + 1) ?X = ?X\<lparr>os_text := os_text ?X @
                       space_separated (map binary_digits (drop (i + 1) b))\<rparr>"
          by (rule "1.IH" [OF True refl refl i2 gX wX])
        then show ?thesis unfolding X .
      qed
      finally show ?thesis unfolding d using e by simp
    qed
  qed
qed

lemma digit_char_lower: "digit_char False d = hex_digit d"
  by (simp add: digit_char_def hex_digit_def)

lemma digits_of_hex_small: "n < 16 \<Longrightarrow> digits_of base_hex False n = [hex_digit n]"
  by (subst digits_of.simps) (simp add: radix_def digit_char_lower)

lemma digits_of_hex_byte:
  "16 \<le> n \<Longrightarrow> n < 256 \<Longrightarrow>
   digits_of base_hex False n = [hex_digit (n div 16), hex_digit (n mod 16)]"
proof -
  assume a: "16 \<le> n" "n < 256"
  then have "n div 16 < 16" by simp
  then have "digits_of base_hex False (n div 16) = [hex_digit (n div 16)]"
    by (rule digits_of_hex_small)
  then show ?thesis
    using a by (subst digits_of.simps) (simp add: radix_def digit_char_lower)
qed

lemma hex_digit_0: "hex_digit 0 = CHR ''0''"
  by (simp add: hex_digit_def)

lemma hex_field:
  assumes n: "n < 256"
  shows "replicate (2 - length (digits_of base_hex False n)) CHR ''0'' @
           digits_of base_hex False n = [hex_digit (n div 16), hex_digit (n mod 16)]"
proof (cases "n < 16")
  case True
  then show ?thesis by (simp add: digits_of_hex_small hex_digit_0)
next
  case False
  then have "16 \<le> n" by simp
  from digits_of_hex_byte [OF this n] show ?thesis by simp
qed

lemma unat_promote: "unat (promote d) = unat d"
proof -
  have "unat d < 2 ^ LENGTH(8)" by (rule unsigned_less)
  then have "unat d < 2 ^ 32" by simp
  then have "take_bit 32 (unat d) = unat d" by (rule take_bit_nat_eq_self)
  then show ?thesis unfolding promote_def unsigned_ucast_eq by simp
qed

lemma unat_byte_less: "unat (d :: byte_t) < 256"
proof -
  have "unat d < 2 ^ LENGTH(8)" by (rule unsigned_less)
  then show ?thesis by simp
qed

lemma hex_step:
  assumes "os_good os" "\<not> os_uppercase os" "\<not> os_showbase os" "os_adjust os \<noteq> adjust_left"
  shows "insert_int (setw 2 (setfill CHR ''0'' (std_hex os))) (unat (promote d)) =
           os\<lparr>os_text := os_text os @ two_hex_digits d, os_width := 0,
              os_fill := CHR ''0'', os_base := base_hex\<rparr>"
proof -
  have f: "replicate (2 - length (digits_of base_hex False (unat d))) CHR ''0'' @
           digits_of base_hex False (unat d) = two_hex_digits d"
    unfolding two_hex_digits_def by (rule hex_field [OF unat_byte_less])
  show ?thesis
    using assms f
    by (cases "os_adjust os")
       (simp_all add: insert_int_def setw_def setfill_def std_hex_def int_prefix_def
          int_body_def unat_promote Let_def)
qed

lemma print_hex_loop_closed:
  assumes "os_good os" "\<not> os_uppercase os" "\<not> os_showbase os" "os_adjust os \<noteq> adjust_left"
  shows "i \<le> length data \<Longrightarrow>
         os_text (print_hex_loop data i os) =
           os_text os @ concat (map two_hex_digits (rev (take i data)))"
  using assms
proof (induction i arbitrary: os)
  case 0
  show ?case by simp
next
  case (Suc i)
  let ?os = "os\<lparr>os_text := os_text os @ two_hex_digits (data ! i), os_width := 0,
              os_fill := CHR ''0'', os_base := base_hex\<rparr>"
  have step: "insert_int (setw 2 (setfill CHR ''0'' (std_hex os))) (unat (promote (data ! i))) = ?os"
    by (rule hex_step) (use Suc.prems in simp_all)
  have t: "take (Suc i) data = take i data @ [data ! i]"
    using Suc.prems by (simp add: take_Suc_conv_app_nth)
  have "os_text (print_hex_loop data i ?os) =
          os_text ?os @ concat (map two_hex_digits (rev (take i data)))"
    by (rule Suc.IH) (use Suc.prems in simp_all)
  then show ?case by (simp add: step t)
qed

text \<open>
  C4, as the code has it. On a stream that is good and has field width 0, the stream
  output operator appends the bytes in index order, byte 0 first and byte \<open>N - 1\<close> last,
  separated by single spaces, each as eight binary digits with bit 7 first. On a stream
  that moreover has neither \<open>uppercase\<close> nor \<open>showbase\<close> set and whose \<open>adjustfield\<close> is not
  \<open>left\<close>, \<open>print_hex\<close> appends \<open>0x\<close> and then the bytes from the highest index down to
  index 0, each as two lowercase hex digits, zero-padded.
\<close>
theorem renderings:
  "(os_good os \<and> os_width os = 0 \<longrightarrow>
      os_text (stream_out os x) = os_text os @ space_separated (map binary_digits x)) \<and>
   (os_good os \<and> os_width os = 0 \<and> \<not> os_uppercase os \<and> \<not> os_showbase os \<and>
    os_adjust os \<noteq> adjust_left \<longrightarrow>
      os_text (print_hex os x) =
        os_text os @ ''0x'' @ concat (map two_hex_digits (rev x)))"
proof (intro conjI impI)
  assume "os_good os \<and> os_width os = 0"
  then show "os_text (stream_out os x) = os_text os @ space_separated (map binary_digits x)"
    by (simp add: stream_out_def out_loop_closed)
next
  assume a: "os_good os \<and> os_width os = 0 \<and> \<not> os_uppercase os \<and> \<not> os_showbase os \<and>
    os_adjust os \<noteq> adjust_left"
  let ?os = "os\<lparr>os_text := os_text os @ ''0x''\<rparr>"
  have p: "insert_text os ''0x'' = ?os" using a by (simp add: insert_text_plain)
  have "os_text (print_hex_loop x (length x) ?os) =
          os_text ?os @ concat (map two_hex_digits (rev (take (length x) x)))"
    by (rule print_hex_loop_closed) (use a in simp_all)
  then show "os_text (print_hex os x) =
        os_text os @ ''0x'' @ concat (map two_hex_digits (rev x))"
    by (simp add: print_hex_def std_dec_def p)
qed

lemma init_stream_state:
  "os_good init_stream" "os_width init_stream = 0" "\<not> os_uppercase init_stream"
  "\<not> os_showbase init_stream" "os_adjust init_stream \<noteq> adjust_left"
  "os_text init_stream = []"
  by (simp_all add: init_stream_def)

theorem renderings_witness:
  "os_good init_stream \<and> os_width init_stream = 0 \<and> \<not> os_uppercase init_stream \<and>
   \<not> os_showbase init_stream \<and> os_adjust init_stream \<noteq> adjust_left \<and>
   os_text (stream_out init_stream [0x0A, 0xFF]) =
     os_text init_stream @ space_separated (map binary_digits [0x0A, 0xFF]) \<and>
   os_text (print_hex init_stream [0x0A, 0xFF]) =
     os_text init_stream @ ''0x'' @ concat (map two_hex_digits (rev [0x0A, 0xFF]))"
proof -
  note s = init_stream_state
  have h1: "os_good init_stream \<and> os_width init_stream = 0" by (intro conjI s)
  have h2: "os_good init_stream \<and> os_width init_stream = 0 \<and> \<not> os_uppercase init_stream \<and>
    \<not> os_showbase init_stream \<and> os_adjust init_stream \<noteq> adjust_left" by (intro conjI s)
  note c = renderings [of init_stream "[0x0A, 0xFF]"]
  note b = c [THEN conjunct1, rule_format, OF h1]
  note x = c [THEN conjunct2, rule_format, OF h2]
  show ?thesis by (intro conjI s(1-5) b x)
qed

text \<open>
  The binary rendering is not the high-to-low listing: for \<open>N = 2\<close> and bytes \<open>[01, 00]\<close>
  the operator writes byte 0 first, also on a stream that nothing has touched. And the
  hex digits are lowercase only while the stream does not ask for capitals.
\<close>

lemma example_stream_out:
  "os_text (stream_out init_stream [0x01, 0x00]) = ''00000001 00000000''"
  by code_simp

lemma example_high_to_low: "binary_high_to_low [0x01, 0x00] = ''00000000 00000001''"
  by code_simp

lemma example_uppercase:
  "os_text (print_hex (init_stream\<lparr>os_uppercase := True\<rparr>) [0x0A, 0xFF, 0x00]) = ''0x00FF0A''"
  by code_simp

theorem binary_rendering_counterexample:
  "os_text (stream_out init_stream [0x01, 0x00]) = ''00000001 00000000'' \<and>
   binary_high_to_low [0x01, 0x00] = ''00000000 00000001'' \<and>
   os_text (stream_out init_stream [0x01, 0x00]) \<noteq> binary_high_to_low [0x01, 0x00] \<and>
   os_text (print_hex (init_stream\<lparr>os_uppercase := True\<rparr>) [0x0A, 0xFF, 0x00]) = ''0x00FF0A''"
  unfolding example_stream_out example_high_to_low example_uppercase by simp

end
